theory Spec2Isabelle
  imports Complex_Main "HOL-Library.Char_ord" "HOL-Library.List_Lexorder" "HOL-Library.AList"
begin

section \<open>The linear equation solver of equation_solver.py\<close>

text \<open>
  The solver works on Python floats. They are modelled by exact rationals (\<^typ>\<open>rat\<close>):
  rounding, overflow, infinities and NaN are outside the model. The tolerance literal
  \<^verbatim>\<open>1e-10\<close> is the rational \<open>1 / 10 ^ 10\<close>. Every concrete input evaluated below
  is chosen so that the comparisons against the tolerance come out the same for the
  doubles of the Python run as for the rationals of the model.

  A matrix is a list of rows, as in the source. Rows are values here: two rows of one
  matrix are never the same list object (the solver builds every row freshly).

  Exceptions are values of \<open>error + 'a\<close>. Every list read is bounds-checked, so the
  IndexError of a ragged or empty matrix is a branch of the model. Every division of the
  source is dominated by a test that the divisor's magnitude is at least the tolerance, so
  ZeroDivisionError has no branch.
\<close>

subsection \<open>Errors and loops\<close>

datatype error = IndexError | ValueError | TypeError

definition bindE :: "error + 'a \<Rightarrow> ('a \<Rightarrow> error + 'b) \<Rightarrow> error + 'b" where
  "bindE m f = (case m of Inl e \<Rightarrow> Inl e | Inr x \<Rightarrow> f x)"

text \<open>A \<^verbatim>\<open>for\<close> loop over a list of indices whose body may raise.\<close>

fun foldE :: "('a \<Rightarrow> 's \<Rightarrow> error + 's) \<Rightarrow> 'a list \<Rightarrow> 's \<Rightarrow> error + 's" where
  "foldE f [] s = Inr s"
| "foldE f (x # xs) s = (case f x s of Inl e \<Rightarrow> Inl e | Inr s' \<Rightarrow> foldE f xs s')"

text \<open>A list comprehension whose element expression may raise.\<close>

fun mapE :: "('a \<Rightarrow> error + 'b) \<Rightarrow> 'a list \<Rightarrow> error + 'b list" where
  "mapE f [] = Inr []"
| "mapE f (x # xs) =
     (case f x of Inl e \<Rightarrow> Inl e
      | Inr y \<Rightarrow> (case mapE f xs of Inl e \<Rightarrow> Inl e | Inr ys \<Rightarrow> Inr (y # ys)))"

subsection \<open>Matrices\<close>

type_synonym matrix = "rat list list"

definition tol :: rat where
  "tol = 1 / 10 ^ 10"

text \<open>\<^verbatim>\<open>xs[i]\<close> for an index \<open>i \<ge> 0\<close>, and \<^verbatim>\<open>matrix[r][c]\<close>.\<close>

definition item :: "'a list \<Rightarrow> nat \<Rightarrow> error + 'a" where
  "item xs i = (if i < length xs then Inr (xs ! i) else Inl IndexError)"

definition entry :: "matrix \<Rightarrow> nat \<Rightarrow> nat \<Rightarrow> error + rat" where
  "entry m r c = bindE (item m r) (\<lambda>row. item row c)"

text \<open>\<^verbatim>\<open>xs[-1]\<close>.\<close>

definition last_item :: "'a list \<Rightarrow> error + 'a" where
  "last_item xs = (if xs = [] then Inl IndexError else Inr (last xs))"

text \<open>\<^verbatim>\<open>matrix[a], matrix[b] = matrix[b], matrix[a]\<close>, for indices in range.\<close>

definition swap_rows :: "matrix \<Rightarrow> nat \<Rightarrow> nat \<Rightarrow> matrix" where
  "swap_rows m a b = (m[a := m ! b])[b := m ! a]"

text \<open>
  \<^verbatim>\<open>for j in range(cols): matrix[i][j] /= pivot\<close>, on the row \<^verbatim>\<open>matrix[i]\<close>.
\<close>

definition scale_row :: "nat \<Rightarrow> rat \<Rightarrow> rat list \<Rightarrow> error + rat list" where
  "scale_row cols pivot row =
     foldE (\<lambda>j r. bindE (item r j) (\<lambda>x. Inr (r[j := x / pivot]))) [0..<cols] row"

text \<open>
  \<^verbatim>\<open>for k in range(cols): matrix[j][k] -= factor * matrix[i][k]\<close>, on the row
  \<^verbatim>\<open>matrix[j]\<close> with the row \<^verbatim>\<open>matrix[i]\<close> fixed (\<open>j \<noteq> i\<close>).
\<close>

definition sub_row :: "nat \<Rightarrow> rat \<Rightarrow> rat list \<Rightarrow> rat list \<Rightarrow> error + rat list" where
  "sub_row cols factor rowi rowj =
     foldE (\<lambda>k r. bindE (item r k) (\<lambda>x. bindE (item rowi k) (\<lambda>y. Inr (r[k := x - factor * y]))))
       [0..<cols] rowj"

subsection \<open>gauss_jordan\<close>

text \<open>
  The pivot search: \<^verbatim>\<open>if abs(matrix[j][i]) > abs(matrix[pivot_row][i]): pivot_row = j\<close>.
\<close>

definition gj_select :: "matrix \<Rightarrow> nat \<Rightarrow> nat \<Rightarrow> nat \<Rightarrow> error + nat" where
  "gj_select m i j pivot_row =
     bindE (entry m j i) (\<lambda>a. bindE (entry m pivot_row i) (\<lambda>b.
       Inr (if \<bar>a\<bar> > \<bar>b\<bar> then j else pivot_row)))"

text \<open>The body of the elimination loop, for the row \<open>j\<close>.\<close>

definition gj_eliminate :: "nat \<Rightarrow> nat \<Rightarrow> nat \<Rightarrow> matrix \<Rightarrow> error + matrix" where
  "gj_eliminate cols i j m =
     (if j \<noteq> i then
        bindE (entry m j i) (\<lambda>factor.
          if \<bar>factor\<bar> > tol then
            bindE (item m j) (\<lambda>rowj. bindE (item m i) (\<lambda>rowi.
              bindE (sub_row cols factor rowi rowj) (\<lambda>r. Inr (m[j := r]))))
          else Inr m)
      else Inr m)"

text \<open>The body of the outer loop, for the pivot index \<open>i\<close>.\<close>

definition gj_step :: "nat \<Rightarrow> nat \<Rightarrow> nat \<Rightarrow> matrix \<Rightarrow> error + matrix" where
  "gj_step rows cols i m =
     bindE (foldE (gj_select m i) [i + 1..<rows] i) (\<lambda>pivot_row.
       let m1 = (if pivot_row \<noteq> i then swap_rows m i pivot_row else m) in
       bindE (entry m1 i i) (\<lambda>pivot.
         if \<bar>pivot\<bar> < tol then Inr m1
         else
           bindE (item m1 i) (\<lambda>rowi. bindE (scale_row cols pivot rowi) (\<lambda>r.
             foldE (gj_eliminate cols i) [0..<rows] (m1[i := r])))))"

text \<open>
  The source mutates its argument and returns nothing; the model returns the matrix as
  it is when the function returns. \<^verbatim>\<open>len(matrix[0])\<close> raises on the empty matrix.
  For \<open>cols = 0\<close> the bound \<^verbatim>\<open>min(rows, cols - 1)\<close> is negative in Python and \<open>0\<close>
  here: the loop is empty either way.
\<close>

definition gauss_jordan :: "matrix \<Rightarrow> error + matrix" where
  "gauss_jordan m =
     bindE (item m 0) (\<lambda>row0.
       let rows = length m; cols = length row0 in
       foldE (gj_step rows cols) [0..<min rows (cols - 1)] m)"

subsection \<open>check_rank\<close>

text \<open>
  The pivot search with its \<^verbatim>\<open>break\<close>: the first row of the range whose entry in
  column \<open>col\<close> exceeds the tolerance; \<open>None\<close> is the sentinel \<open>-1\<close>.
\<close>

fun find_pivot :: "matrix \<Rightarrow> nat \<Rightarrow> nat list \<Rightarrow> error + nat option" where
  "find_pivot m col [] = Inr None"
| "find_pivot m col (row # rest) =
     (case entry m row col of Inl e \<Rightarrow> Inl e
      | Inr v \<Rightarrow> if \<bar>v\<bar> > tol then Inr (Some row) else find_pivot m col rest)"

definition cr_eliminate :: "nat \<Rightarrow> nat \<Rightarrow> nat \<Rightarrow> nat \<Rightarrow> matrix \<Rightarrow> error + matrix" where
  "cr_eliminate cols col rank row m =
     (if row \<noteq> rank then
        bindE (entry m row col) (\<lambda>v.
          if \<bar>v\<bar> > tol then
            bindE (entry m rank col) (\<lambda>p.
              let factor = v / p in
              bindE (item m row) (\<lambda>rowj. bindE (item m rank) (\<lambda>rowi.
                bindE (sub_row cols factor rowi rowj) (\<lambda>r. Inr (m[row := r])))))
          else Inr m)
      else Inr m)"

definition cr_step :: "nat \<Rightarrow> nat \<Rightarrow> nat \<Rightarrow> matrix \<times> nat \<Rightarrow> error + matrix \<times> nat" where
  "cr_step rows cols col s =
     (case s of (m, rank) \<Rightarrow>
        bindE (find_pivot m col [rank..<rows]) (\<lambda>found.
          case found of
            None \<Rightarrow> Inr (m, rank)
          | Some pivot_row \<Rightarrow>
              let m1 = (if pivot_row \<noteq> rank then swap_rows m rank pivot_row else m) in
              bindE (foldE (cr_eliminate cols col rank) [0..<rows] m1) (\<lambda>m2.
                Inr (m2, rank + 1))))"

text \<open>
  \<^verbatim>\<open>temp_matrix = [row[:] for row in matrix]\<close> copies every row; on values the copy is
  the matrix itself. (The store model of the copy is in the section on mutation below.)
\<close>

definition check_rank :: "matrix \<Rightarrow> error + nat" where
  "check_rank m =
     (if m = [] \<or> hd m = [] then Inr 0
      else
        let rows = length m; cols = length (hd m) in
        bindE (foldE (cr_step rows cols) [0..<cols] (m, 0)) (\<lambda>s. Inr (snd s)))"


subsection \<open>Terms and the matrix builder\<close>

datatype Operator = ADD | SUB

record Term =
  coefficient :: rat
  variable :: string
  operator :: Operator

text \<open>An equation after parsing: the pair \<^verbatim>\<open>(terms, rhs)\<close>.\<close>

type_synonym equation = "Term list \<times> rat"

text \<open>\<^verbatim>\<open>var_order.index(v)\<close>: the first position of \<open>v\<close>, ValueError when absent.\<close>

fun index_of :: "'a list \<Rightarrow> 'a \<Rightarrow> error + nat" where
  "index_of [] v = Inl ValueError"
| "index_of (x # xs) v =
     (if x = v then Inr 0
      else (case index_of xs v of Inl e \<Rightarrow> Inl e | Inr n \<Rightarrow> Inr (Suc n)))"

definition sign :: "Term \<Rightarrow> rat" where
  "sign t = (if operator t = ADD then 1 else - 1)"

text \<open>
  One row of \<open>A\<close>: \<^verbatim>\<open>row = [0] * len(var_order)\<close>, then for each term
  \<^verbatim>\<open>row[idx] += sign * term.coefficient\<close>.
\<close>

definition build_row :: "string list \<Rightarrow> Term list \<Rightarrow> error + rat list" where
  "build_row var_order terms =
     foldE (\<lambda>t row. bindE (index_of var_order (variable t)) (\<lambda>idx.
              Inr (row[idx := row ! idx + sign t * coefficient t])))
       terms (replicate (length var_order) 0)"

text \<open>
  The variables of all terms in the order the loop adds them to the set \<^verbatim>\<open>all_vars\<close>.
\<close>

definition term_vars :: "equation list \<Rightarrow> string list" where
  "term_vars parsed = concat (map (\<lambda>e. map variable (fst e)) parsed)"

subsection \<open>The free-variable solution generator\<close>

text \<open>
  A solution is a Python dict from variable names to values, built by insertion: an
  association list with \<open>AList.update\<close> (a new key goes to the end, an old key keeps its
  place) and \<open>map_of\<close> for the lookup.
\<close>

type_synonym solution = "(string \<times> rat) list"

text \<open>
  The first column of the range whose entry in the row exceeds the tolerance (the inner
  loop with \<^verbatim>\<open>break\<close>, used twice in the source); \<open>None\<close> is the sentinel \<open>-1\<close>.
\<close>

fun find_col :: "matrix \<Rightarrow> nat \<Rightarrow> nat list \<Rightarrow> error + nat option" where
  "find_col m row [] = Inr None"
| "find_col m row (col # rest) =
     (case entry m row col of Inl e \<Rightarrow> Inl e
      | Inr v \<Rightarrow> if \<bar>v\<bar> > tol then Inr (Some col) else find_col m row rest)"

text \<open>The loop that collects \<^verbatim>\<open>pivot_cols\<close> and \<^verbatim>\<open>basic_vars\<close>, for one row.\<close>

definition pivot_scan ::
  "matrix \<Rightarrow> string list \<Rightarrow> nat \<Rightarrow> nat list \<times> string list \<Rightarrow> error + nat list \<times> string list" where
  "pivot_scan augmented var_order row s =
     (case s of (pivot_cols, basic_vars) \<Rightarrow>
        bindE (find_col augmented row [0..<length var_order]) (\<lambda>found.
          case found of
            None \<Rightarrow> Inr (pivot_cols, basic_vars)
          | Some col \<Rightarrow>
              if col \<notin> set pivot_cols then
                bindE (item var_order col) (\<lambda>v. Inr (pivot_cols @ [col], basic_vars @ [v]))
              else Inr (pivot_cols, basic_vars)))"

text \<open>The battery of values for the free variables, \<open>k\<close> of them.\<close>

definition free_var_values :: "nat \<Rightarrow> rat list list" where
  "free_var_values k =
     (if k > 1 then
        [replicate k 0, replicate k 1, replicate k (- 1),
         [1, 0] @ replicate (k - 2) 0, [0, 1] @ replicate (k - 2) 0]
      else
        [replicate k 0, replicate k 1, replicate k (- 1), replicate k 2, replicate k (- 2)])"

text \<open>
  \<^verbatim>\<open>if other_var in solution: rhs -= augmented[row][col] * solution[other_var]\<close>.
\<close>

definition back_term ::
  "matrix \<Rightarrow> string list \<Rightarrow> solution \<Rightarrow> nat \<Rightarrow> nat \<Rightarrow> rat \<Rightarrow> error + rat" where
  "back_term augmented var_order sol row col rhs =
     bindE (item var_order col) (\<lambda>other_var.
       case map_of sol other_var of
         None \<Rightarrow> Inr rhs
       | Some v \<Rightarrow> bindE (entry augmented row col) (\<lambda>a. Inr (rhs - a * v)))"

text \<open>The body of the back-substitution loop, for one row.\<close>

definition back_row :: "matrix \<Rightarrow> string list \<Rightarrow> nat \<Rightarrow> solution \<Rightarrow> error + solution" where
  "back_row augmented var_order row sol =
     bindE (find_col augmented row [0..<length var_order]) (\<lambda>found.
       case found of
         None \<Rightarrow> Inr sol
       | Some pivot_col \<Rightarrow>
           bindE (item var_order pivot_col) (\<lambda>var_name.
             if map_of sol var_name = None then
               bindE (bindE (item augmented row) last_item) (\<lambda>rhs0.
               bindE (foldE (back_term augmented var_order sol row)
                        [pivot_col + 1..<length var_order] rhs0) (\<lambda>rhs.
               bindE (entry augmented row pivot_col) (\<lambda>p.
                 if \<bar>p\<bar> > tol then Inr (AList.update var_name (rhs / p) sol)
                 else Inr sol)))
             else Inr sol))"

text \<open>One example solution, for one list of values of the free variables.\<close>

definition example_solution ::
  "matrix \<Rightarrow> string list \<Rightarrow> string list \<Rightarrow> rat list \<Rightarrow> error + solution" where
  "example_solution augmented var_order free_vars free_values =
     bindE (foldE (\<lambda>jv sol. bindE (item free_values (fst jv)) (\<lambda>x.
                     Inr (AList.update (snd jv) x sol)))
              (enumerate 0 free_vars) [])
       (\<lambda>sol0. foldE (back_row augmented var_order) (rev [0..<length augmented]) sol0)"

datatype outcome =
    NoSolution
  | UniqueSolution solution
  | InfiniteSolutions "string list" "string list" "solution list"

text \<open>
  The three \<^verbatim>\<open>return\<close> statements of the solver are the three constructors:
  \<open>NoSolution\<close> is the empty dict after printing "No solution", \<open>UniqueSolution\<close> the dict
  \<^verbatim>\<open>dict(zip(var_order, ret))\<close>, and \<open>InfiniteSolutions\<close> carries the values under the
  keys \<^verbatim>\<open>basic_variables\<close>, \<^verbatim>\<open>free_variables\<close> and \<^verbatim>\<open>example_solutions\<close>.
\<close>

text \<open>
  The dict that each \<^verbatim>\<open>return\<close> statement builds, as the list of its items in insertion
  order. The constructors tell the three statements apart; the dicts do not always:
  \<open>NoSolution\<close> is \<^verbatim>\<open>{}\<close>, and so is the unique solution of a system without variables.
  The values of a dict are floats in a unique solution; in an infinite outcome they are
  the string \<^verbatim>\<open>"infinite"\<close>, two lists of variable names and a list of dicts.
\<close>

datatype pyval = Num rat | Str string | Names "string list" | Dicts "solution list"

fun returned :: "outcome \<Rightarrow> (string \<times> pyval) list" where
  "returned NoSolution = []"
| "returned (UniqueSolution sol) = map (\<lambda>kv. (fst kv, Num (snd kv))) sol"
| "returned (InfiniteSolutions basic_vars free_vars example_solutions) =
     [(''type'', Str ''infinite''), (''basic_variables'', Names basic_vars),
      (''free_variables'', Names free_vars), (''example_solutions'', Dicts example_solutions)]"

definition is_num :: "pyval \<Rightarrow> bool" where
  "is_num x = (case x of Num _ \<Rightarrow> True | _ \<Rightarrow> False)"

definition generate_infinite_solutions ::
  "matrix \<Rightarrow> matrix \<Rightarrow> string list \<Rightarrow> error + outcome" where
  "generate_infinite_solutions coefficient_matrix augmented var_order =
     bindE (check_rank coefficient_matrix) (\<lambda>rank.
     bindE (foldE (pivot_scan augmented var_order) [0..<length augmented] ([], [])) (\<lambda>scan.
       let pivot_cols = fst scan; basic_vars = snd scan;
           free_vars = map snd (filter (\<lambda>iv. fst iv \<notin> set pivot_cols) (enumerate 0 var_order))
       in
       bindE (mapE (example_solution augmented var_order free_vars)
                (free_var_values (length free_vars))) (\<lambda>example_solutions.
         Inr (InfiniteSolutions basic_vars free_vars example_solutions))))"

subsection \<open>solve_equations_manual\<close>

text \<open>
  The solver after its parsing loop. \<open>vars\<close> lists the elements of the Python set
  \<^verbatim>\<open>all_vars\<close> in the order the set iterates them, which the language leaves open;
  \<^verbatim>\<open>sorted(all_vars)\<close> sorts that list (strings compare by code point, a proper prefix
  first).
\<close>

definition build_matrix :: "string list \<Rightarrow> equation list \<Rightarrow> error + matrix" where
  "build_matrix var_order parsed = mapE (\<lambda>e. build_row var_order (fst e)) parsed"

text \<open>\<^verbatim>\<open>[row + [b] for row, b in zip(A, B)]\<close>.\<close>

definition augment :: "matrix \<Rightarrow> rat list \<Rightarrow> matrix" where
  "augment A B = map (\<lambda>rb. fst rb @ [snd rb]) (zip A B)"

definition solve_from :: "string list \<Rightarrow> equation list \<Rightarrow> error + outcome" where
  "solve_from vars parsed =
     (let var_order = sort vars in
      bindE (build_matrix var_order parsed) (\<lambda>A.
        let B = map snd parsed in
        bindE (gauss_jordan (augment A B)) (\<lambda>augmented.
        bindE (mapE last_item augmented) (\<lambda>ret.
          let coefficient_matrix = map butlast augmented in
          bindE (check_rank coefficient_matrix) (\<lambda>c_rank_A.
          bindE (check_rank augmented) (\<lambda>c_rank_aug.
          bindE (item coefficient_matrix 0) (\<lambda>row0.
            let c_num_vars = length row0 in
            if c_rank_A \<noteq> c_rank_aug then Inr NoSolution
            else if c_rank_A < c_num_vars then
              generate_infinite_solutions coefficient_matrix augmented var_order
            else Inr (UniqueSolution (zip var_order ret)))))))))"

definition solve_parsed :: "equation list \<Rightarrow> error + outcome" where
  "solve_parsed parsed = solve_from (remdups (term_vars parsed)) parsed"

subsection \<open>parse_question\<close>

text \<open>
  Equation strings are ASCII. \<open>is_alpha\<close> and \<open>is_space\<close> are \<^verbatim>\<open>str.isalpha\<close> and
  \<^verbatim>\<open>str.isspace\<close> on ASCII characters.
\<close>

definition is_alpha :: "char \<Rightarrow> bool" where
  "is_alpha c = ((CHR ''a'' \<le> c \<and> c \<le> CHR ''z'') \<or> (CHR ''A'' \<le> c \<and> c \<le> CHR ''Z''))"

definition is_space :: "char \<Rightarrow> bool" where
  "is_space c = (let n = (of_char c :: nat) in (9 \<le> n \<and> n \<le> 13) \<or> (28 \<le> n \<and> n \<le> 32))"

definition strip :: "string \<Rightarrow> string" where
  "strip s = rev (dropWhile is_space (rev (dropWhile is_space s)))"

text \<open>\<^verbatim>\<open>s.split(c)\<close> for a one-character separator.\<close>

fun split_on :: "char \<Rightarrow> string \<Rightarrow> string list" where
  "split_on c [] = [[]]"
| "split_on c (x # xs) =
     (if x = c then [] # split_on c xs
      else (case split_on c xs of [] \<Rightarrow> [[x]] | w # ws \<Rightarrow> (x # w) # ws))"

text \<open>
  The body of the loop over the parts of the left-hand side. \<open>flt\<close> is Python's
  \<^verbatim>\<open>float\<close> on strings, a parameter of the model.
\<close>

definition parse_part :: "(string \<Rightarrow> error + rat) \<Rightarrow> string \<Rightarrow> error + Term" where
  "parse_part flt part0 =
     (let op = (if part0 \<noteq> [] \<and> hd part0 = CHR ''-'' then SUB else ADD);
          part = (if part0 \<noteq> [] \<and> hd part0 = CHR ''-'' then tl part0 else part0)
      in
      if part \<noteq> [] \<and> list_all is_alpha part then
        Inr \<lparr>coefficient = 1, variable = part, operator = op\<rparr>
      else
        let var_start = (if list_ex is_alpha part
                         then length (takeWhile (\<lambda>c. \<not> is_alpha c) part) else 0)
        in
        if var_start = 0 then Inr \<lparr>coefficient = 1, variable = part, operator = op\<rparr>
        else
          bindE (flt (take var_start part)) (\<lambda>c.
            Inr \<lparr>coefficient = c, variable = drop var_start part, operator = op\<rparr>))"

definition parse_question :: "(string \<Rightarrow> error + rat) \<Rightarrow> string \<Rightarrow> error + equation" where
  "parse_question flt equation_text =
     (case split_on CHR ''='' equation_text of
        [left, right] \<Rightarrow>
          bindE (flt (strip right)) (\<lambda>rhs.
            let left1 = concat (map (\<lambda>c. if c = CHR ''-'' then ''+-'' else [c]) left);
                left2 = filter (\<lambda>c. c \<noteq> CHR '' '') left1;
                parts = filter (\<lambda>p. p \<noteq> []) (split_on CHR ''+'' left2)
            in
            bindE (mapE (parse_part flt) parts) (\<lambda>terms. Inr (terms, rhs)))
      | _ \<Rightarrow> Inl ValueError)"

text \<open>The solver on equation strings: the parsing loop, then the rest of the body.\<close>

definition solve_equations_manual ::
  "(string \<Rightarrow> error + rat) \<Rightarrow> string list \<Rightarrow> error + outcome" where
  "solve_equations_manual flt eq = bindE (mapE (parse_question flt) eq) solve_parsed"

text \<open>
  Plain decimal literals, \<open>[+-]digits[.digits]\<close> with a digit on at least one side of the
  point: on these \<^verbatim>\<open>float\<close> returns the double nearest to the value computed here.
  Python's \<^verbatim>\<open>float\<close> accepts more (exponents, \<^verbatim>\<open>inf\<close>, \<^verbatim>\<open>nan\<close>, underscores between
  digits); the concrete runs below use plain decimal literals only, and the general
  theorems are about every \<open>flt\<close>.
\<close>

definition is_digit :: "char \<Rightarrow> bool" where
  "is_digit c = (CHR ''0'' \<le> c \<and> c \<le> CHR ''9'')"

definition digits_value :: "string \<Rightarrow> rat" where
  "digits_value ds = foldl (\<lambda>n c. 10 * n + of_nat (of_char c - of_char CHR ''0'')) 0 ds"

definition float_literal :: "string \<Rightarrow> error + rat" where
  "float_literal s =
     (let neg = (s \<noteq> [] \<and> hd s = CHR ''-'');
          body = (if s \<noteq> [] \<and> (hd s = CHR ''-'' \<or> hd s = CHR ''+'') then tl s else s);
          ip = takeWhile is_digit body;
          rest = dropWhile is_digit body;
          fp = (if rest \<noteq> [] \<and> hd rest = CHR ''.'' then tl rest else [])
      in
      if (rest = [] \<or> hd rest = CHR ''.'') \<and> list_all is_digit fp \<and> \<not> (ip = [] \<and> fp = [])
      then Inr ((if neg then - 1 else 1) *
                (digits_value ip + digits_value fp / 10 ^ length fp))
      else Inl ValueError)"

text \<open>
  Substituting a solution into an equation with the matrix builder's row semantics: the
  sum over the terms of \<open>sign * coefficient * value\<close>, a variable without a value counting
  as 0 (\<^verbatim>\<open>solution.get(var, 0)\<close>, as the repository's verification scripts read it).
\<close>

definition value_of :: "solution \<Rightarrow> string \<Rightarrow> rat" where
  "value_of sol v = (case map_of sol v of None \<Rightarrow> 0 | Some x \<Rightarrow> x)"

definition substitute :: "solution \<Rightarrow> Term list \<Rightarrow> rat" where
  "substitute sol terms = sum_list (map (\<lambda>t. sign t * coefficient t * value_of sol (variable t)) terms)"

text \<open>
  The leading entry of a row: its first entry whose magnitude exceeds the tolerance.
\<close>

definition leading_entry :: "rat list \<Rightarrow> rat option" where
  "leading_entry row = find (\<lambda>x. \<bar>x\<bar> > tol) row"

subsection \<open>Notions used in the statements and proofs\<close>

text \<open>A matrix with \<open>rows\<close> rows, each of length \<open>cols\<close>.\<close>

definition rect :: "nat \<Rightarrow> nat \<Rightarrow> matrix \<Rightarrow> bool" where
  "rect rows cols m = (length m = rows \<and> list_all (\<lambda>r. length r = cols) m)"

text \<open>
  The row \<open>r\<close> of an augmented matrix with \<open>n\<close> coefficient columns, read as an equation,
  holds for the values \<open>v\<close> of the variables, and all rows of a matrix do.
\<close>

definition row_holds :: "nat \<Rightarrow> rat list \<Rightarrow> rat list \<Rightarrow> bool" where
  "row_holds n v r = ((\<Sum>j<n. r ! j * v ! j) = r ! n)"

definition sols :: "nat \<Rightarrow> matrix \<Rightarrow> rat list \<Rightarrow> bool" where
  "sols n m v = (\<forall>k<length m. row_holds n v (m ! k))"

text \<open>Every row is as long as the first.\<close>

definition rectangular :: "matrix \<Rightarrow> bool" where
  "rectangular m = list_all (\<lambda>r. length r = length (hd m)) m"

text \<open>The variable order of a system: \<^verbatim>\<open>sorted(all_vars)\<close>.\<close>

definition var_order_of :: "equation list \<Rightarrow> string list" where
  "var_order_of parsed = sort (remdups (term_vars parsed))"

text \<open>
  The pivot position \<open>i\<close> of a matrix is settled when no row below has a larger magnitude
  in column \<open>i\<close> than the row \<open>i\<close>, and the entry at \<open>(i, i)\<close> is either below the
  tolerance or is 1 with every other entry of the column within the tolerance. A matrix
  is in reduced form when every pivot position that gauss_jordan visits is settled.
\<close>

definition settled_at :: "matrix \<Rightarrow> nat \<Rightarrow> bool" where
  "settled_at m i =
     (list_all (\<lambda>j. \<bar>m ! j ! i\<bar> \<le> \<bar>m ! i ! i\<bar>) [i + 1..<length m] \<and>
      (\<bar>m ! i ! i\<bar> < tol \<or>
       (m ! i ! i = 1 \<and> list_all (\<lambda>j. j = i \<or> \<bar>m ! j ! i\<bar> \<le> tol) [0..<length m])))"

definition reduced_form :: "matrix \<Rightarrow> bool" where
  "reduced_form m = list_all (settled_at m) [0..<min (length m) (length (hd m) - 1)]"

subsection \<open>check_rank on a store\<close>

text \<open>
  For the question whether check_rank mutates its argument, lists are objects in a store:
  a store is a list of objects, an address is a position in it, and allocation appends.
  A list of floats is a \<open>Row\<close>; a list of lists is a \<open>Mat\<close> of the addresses of its rows,
  so that two matrices can share rows and an assignment through one is seen through the
  other. Reading a row where a matrix is stored, or the reverse, is a TypeError.
\<close>

datatype obj = Row "rat list" | Mat "nat list"

type_synonym store = "obj list"

definition get_row :: "store \<Rightarrow> nat \<Rightarrow> error + rat list" where
  "get_row h a = bindE (item h a) (\<lambda>ob. case ob of Row r \<Rightarrow> Inr r | Mat _ \<Rightarrow> Inl TypeError)"

definition get_refs :: "store \<Rightarrow> nat \<Rightarrow> error + nat list" where
  "get_refs h a = bindE (item h a) (\<lambda>ob. case ob of Mat refs \<Rightarrow> Inr refs | Row _ \<Rightarrow> Inl TypeError)"

text \<open>\<^verbatim>\<open>temp_matrix[r][c]\<close>, for the matrix at the address \<open>t\<close>.\<close>

definition load :: "store \<Rightarrow> nat \<Rightarrow> nat \<Rightarrow> nat \<Rightarrow> error + rat" where
  "load h t r c =
     bindE (get_refs h t) (\<lambda>refs. bindE (item refs r) (\<lambda>a.
       bindE (get_row h a) (\<lambda>row. item row c)))"

text \<open>\<^verbatim>\<open>temp_matrix[r][c] = v\<close>.\<close>

definition store_entry :: "store \<Rightarrow> nat \<Rightarrow> nat \<Rightarrow> nat \<Rightarrow> rat \<Rightarrow> error + store" where
  "store_entry h t r c v =
     bindE (get_refs h t) (\<lambda>refs. bindE (item refs r) (\<lambda>a.
       bindE (get_row h a) (\<lambda>row.
         if c < length row then Inr (h[a := Row (row[c := v])]) else Inl IndexError)))"

text \<open>
  \<^verbatim>\<open>temp_matrix[i], temp_matrix[j] = temp_matrix[j], temp_matrix[i]\<close>: the outer list is
  changed, the rows are not.
\<close>

definition swap_refs :: "store \<Rightarrow> nat \<Rightarrow> nat \<Rightarrow> nat \<Rightarrow> error + store" where
  "swap_refs h t i j =
     bindE (get_refs h t) (\<lambda>refs. bindE (item refs j) (\<lambda>b. bindE (item refs i) (\<lambda>a.
       Inr (h[t := Mat ((refs[i := b])[j := a])]))))"

fun find_pivot_st :: "store \<Rightarrow> nat \<Rightarrow> nat \<Rightarrow> nat list \<Rightarrow> error + nat option" where
  "find_pivot_st h t col [] = Inr None"
| "find_pivot_st h t col (row # rest) =
     (case load h t row col of Inl e \<Rightarrow> Inl e
      | Inr v \<Rightarrow> if \<bar>v\<bar> > tol then Inr (Some row) else find_pivot_st h t col rest)"

definition cr_eliminate_st :: "nat \<Rightarrow> nat \<Rightarrow> nat \<Rightarrow> nat \<Rightarrow> nat \<Rightarrow> store \<Rightarrow> error + store" where
  "cr_eliminate_st t cols col rank row h =
     (if row \<noteq> rank then
        bindE (load h t row col) (\<lambda>v.
          if \<bar>v\<bar> > tol then
            bindE (load h t rank col) (\<lambda>p.
              let factor = v / p in
              foldE (\<lambda>c h1. bindE (load h1 t row c) (\<lambda>x. bindE (load h1 t rank c) (\<lambda>y.
                       store_entry h1 t row c (x - factor * y))))
                [0..<cols] h)
          else Inr h)
      else Inr h)"

definition cr_step_st ::
  "nat \<Rightarrow> nat \<Rightarrow> nat \<Rightarrow> nat \<Rightarrow> store \<times> nat \<Rightarrow> error + store \<times> nat" where
  "cr_step_st t rows cols col s =
     (case s of (h, rank) \<Rightarrow>
        bindE (find_pivot_st h t col [rank..<rows]) (\<lambda>found.
          case found of
            None \<Rightarrow> Inr (h, rank)
          | Some pivot_row \<Rightarrow>
              bindE (if pivot_row \<noteq> rank then swap_refs h t rank pivot_row else Inr h) (\<lambda>h1.
              bindE (foldE (cr_eliminate_st t cols col rank) [0..<rows] h1) (\<lambda>h2.
                Inr (h2, rank + 1)))))"

text \<open>\<^verbatim>\<open>[row[:] for row in matrix]\<close>: a new row object for every row, in order.\<close>

definition copy_row :: "nat \<Rightarrow> store \<times> nat list \<Rightarrow> error + store \<times> nat list" where
  "copy_row a s =
     (case s of (h, new) \<Rightarrow> bindE (get_row h a) (\<lambda>r. Inr (h @ [Row r], new @ [length h])))"

text \<open>
  check_rank on the matrix at the address \<open>a\<close>: the store when the function returns, and
  the rank.
\<close>

definition check_rank_st :: "store \<Rightarrow> nat \<Rightarrow> error + store \<times> nat" where
  "check_rank_st h a =
     bindE (get_refs h a) (\<lambda>refs.
       if refs = [] then Inr (h, 0)
       else
         bindE (bindE (item refs 0) (get_row h)) (\<lambda>row0.
           if row0 = [] then Inr (h, 0)
           else
             bindE (foldE copy_row refs (h, [])) (\<lambda>copied.
               let t = length (fst copied);
                   h1 = fst copied @ [Mat (snd copied)];
                   rows = length (snd copied)
               in
               bindE (bindE (item (snd copied) 0) (get_row h1)) (\<lambda>temp0.
                 let cols = length temp0 in
                 bindE (foldE (cr_step_st t rows cols) [0..<cols] (h1, 0)) (\<lambda>s.
                   Inr s)))))"

text \<open>
  The working matrix at the address \<open>t\<close> is private with respect to the store \<open>h0\<close> of
  the call: \<open>h0\<close> is an unchanged prefix of the store, and the matrix at \<open>t\<close> and all its
  rows are objects allocated after \<open>h0\<close>.
\<close>

definition private_temp :: "store \<Rightarrow> nat \<Rightarrow> store \<Rightarrow> bool" where
  "private_temp h0 t h =
     (length h0 \<le> t \<and> t < length h \<and> take (length h0) h = h0 \<and>
      (\<exists>refs. h ! t = Mat refs \<and> list_all (\<lambda>a. length h0 \<le> a \<and> a < t) refs))"

text \<open>
  The value of the matrix at the address \<open>t\<close>: the list of its rows, read through the
  references. The store is well formed for a working matrix at \<open>t\<close> with \<open>rows\<close> rows and
  \<open>cols\<close> columns when the row references are distinct and each leads to a row of length
  \<open>cols\<close>.
\<close>

definition row_at :: "store \<Rightarrow> nat \<Rightarrow> rat list" where
  "row_at h a = (case h ! a of Row r \<Rightarrow> r | Mat _ \<Rightarrow> [])"

definition refs_at :: "store \<Rightarrow> nat \<Rightarrow> nat list" where
  "refs_at h t = (case h ! t of Mat refs \<Rightarrow> refs | Row _ \<Rightarrow> [])"

definition mat_of :: "store \<Rightarrow> nat \<Rightarrow> matrix" where
  "mat_of h t = map (row_at h) (refs_at h t)"

definition temp_ok :: "nat \<Rightarrow> nat \<Rightarrow> nat \<Rightarrow> store \<Rightarrow> bool" where
  "temp_ok rows cols t h =
     (t < length h \<and>
      (case h ! t of
         Mat refs \<Rightarrow>
           length refs = rows \<and> distinct refs \<and>
           list_all (\<lambda>a. a < t \<and> (case h ! a of Row r \<Rightarrow> length r = cols | Mat _ \<Rightarrow> False)) refs
       | Row _ \<Rightarrow> False))"

text \<open>The store holds the matrix value \<open>m\<close> at the address \<open>a\<close>.\<close>

definition matrix_at :: "store \<Rightarrow> nat \<Rightarrow> matrix \<Rightarrow> bool" where
  "matrix_at h a m =
     (a < length h \<and>
      (case h ! a of
         Mat refs \<Rightarrow>
           length refs = length m \<and>
           list_all (\<lambda>p. fst p < length h \<and> h ! (fst p) = Row (snd p)) (zip refs m)
       | Row _ \<Rightarrow> False))"

section \<open>Lemmas\<close>

subsection \<open>Loops and row operations on rectangular matrices\<close>

lemma bindE_Inr [simp]: "bindE (Inr x) f = f x"
  by (simp add: bindE_def)

lemma bindE_Inl [simp]: "bindE (Inl e) f = Inl e"
  by (simp add: bindE_def)

lemma bindE_eq_Inr: "bindE m f = Inr y \<longleftrightarrow> (\<exists>x. m = Inr x \<and> f x = Inr y)"
  by (cases m) simp_all

lemma item_in [simp]: "i < length xs \<Longrightarrow> item xs i = Inr (xs ! i)"
  by (simp add: item_def)

lemma item_out [simp]: "\<not> i < length xs \<Longrightarrow> item xs i = Inl IndexError"
  by (simp add: item_def)

lemma entry_in [simp]: "r < length m \<Longrightarrow> c < length (m ! r) \<Longrightarrow> entry m r c = Inr (m ! r ! c)"
  by (simp add: entry_def)

lemma foldE_append: "foldE f (xs @ ys) s = bindE (foldE f xs s) (foldE f ys)"
  by (induction xs arbitrary: s) (auto split: sum.splits)

lemma foldE_invariant:
  assumes "P s" and "\<And>x s. x \<in> set xs \<Longrightarrow> P s \<Longrightarrow> \<exists>s'. f x s = Inr s' \<and> P s'"
  shows "\<exists>s'. foldE f xs s = Inr s' \<and> P s'"
  using assms
proof (induction xs arbitrary: s)
  case Nil
  then show ?case by simp
next
  case (Cons x xs)
  from Cons.prems obtain s1 where s1: "f x s = Inr s1" "P s1"
    by (meson list.set_intros(1))
  have "\<exists>s'. foldE f xs s1 = Inr s' \<and> P s'"
    by (rule Cons.IH [OF s1(2)]) (simp add: Cons.prems(2))
  with s1 show ?case by simp
qed

lemma foldE_upt_invariant:
  assumes "P a s" and "a \<le> b"
    and "\<And>k s. a \<le> k \<Longrightarrow> k < b \<Longrightarrow> P k s \<Longrightarrow> \<exists>s'. f k s = Inr s' \<and> P (Suc k) s'"
  shows "\<exists>s'. foldE f [a..<b] s = Inr s' \<and> P b s'"
  using assms(2,3)
proof (induction b)
  case 0
  with assms(1) show ?case by simp
next
  case (Suc b)
  show ?case
  proof (cases "a = Suc b")
    case True
    with assms(1) show ?thesis by simp
  next
    case False
    with Suc.prems have ab: "a \<le> b" by simp
    have "\<exists>s'. foldE f [a..<b] s = Inr s' \<and> P b s'"
      by (rule Suc.IH [OF ab]) (simp add: Suc.prems(2))
    then obtain s1 where s1: "foldE f [a..<b] s = Inr s1" "P b s1" by blast
    from Suc.prems(2) [OF ab _ s1(2)] obtain s2 where "f b s1 = Inr s2" "P (Suc b) s2"
      by auto
    with s1 ab show ?thesis
      by (simp add: foldE_append)
  qed
qed

lemma scale_row_rect:
  assumes "length row = cols"
  shows "scale_row cols p row = Inr (map (\<lambda>x. x / p) row)"
proof -
  let ?P = "\<lambda>k r. length r = cols \<and> (\<forall>j<cols. r ! j = (if j < k then row ! j / p else row ! j))"
  have "\<exists>r. foldE (\<lambda>j r. bindE (item r j) (\<lambda>x. Inr (r[j := x / p]))) [0..<cols] row = Inr r \<and> ?P cols r"
  proof (rule foldE_upt_invariant [where P = ?P])
    show "?P 0 row" using assms by simp
  next
    fix k s assume "k < cols" "?P k s"
    then show "\<exists>s'. bindE (item s k) (\<lambda>x. Inr (s[k := x / p])) = Inr s' \<and> ?P (Suc k) s'"
      by (auto simp: nth_list_update less_Suc_eq)
  qed simp
  then obtain r where r: "scale_row cols p row = Inr r" "?P cols r"
    by (auto simp: scale_row_def)
  then have "r = map (\<lambda>x. x / p) row"
    using assms by (intro nth_equalityI) auto
  with r show ?thesis by simp
qed

lemma sub_row_rect:
  assumes "length rowi = cols" "length rowj = cols"
  shows "sub_row cols f rowi rowj = Inr (map2 (\<lambda>x y. x - f * y) rowj rowi)"
proof -
  let ?P = "\<lambda>k r. length r = cols \<and> (\<forall>j<cols. r ! j = (if j < k then rowj ! j - f * rowi ! j else rowj ! j))"
  have "\<exists>r. foldE (\<lambda>k r. bindE (item r k) (\<lambda>x. bindE (item rowi k) (\<lambda>y. Inr (r[k := x - f * y]))))
       [0..<cols] rowj = Inr r \<and> ?P cols r"
  proof (rule foldE_upt_invariant [where P = ?P])
    show "?P 0 rowj" using assms by simp
  next
    fix k s assume "k < cols" "?P k s"
    then show "\<exists>s'. bindE (item s k) (\<lambda>x. bindE (item rowi k) (\<lambda>y. Inr (s[k := x - f * y]))) = Inr s' \<and> ?P (Suc k) s'"
      using assms by (auto simp: nth_list_update less_Suc_eq)
  qed simp
  then obtain r where r: "sub_row cols f rowi rowj = Inr r" "?P cols r"
    by (auto simp: sub_row_def)
  then have "r = map2 (\<lambda>x y. x - f * y) rowj rowi"
    using assms by (intro nth_equalityI) auto
  with r show ?thesis by simp
qed


lemma tol_pos: "0 < tol"
  by (simp add: tol_def)

lemma rect_length: "rect rows cols m \<Longrightarrow> length m = rows"
  by (simp add: rect_def)

lemma rect_nth: "rect rows cols m \<Longrightarrow> r < rows \<Longrightarrow> length (m ! r) = cols"
  by (simp add: rect_def list_all_length)

lemma rect_update:
  assumes "rect rows cols m" "length row = cols"
  shows "rect rows cols (m[j := row])"
proof (cases "j < length m")
  case True
  with assms show ?thesis
    by (auto simp: rect_def list_all_length nth_list_update)
next
  case False
  then have "m[j := row] = m" by (simp add: list_update_beyond)
  with assms show ?thesis by simp
qed

lemma swap_rows_nth:
  "a < length m \<Longrightarrow> b < length m \<Longrightarrow> k < length m \<Longrightarrow>
   swap_rows m a b ! k = (if k = b then m ! a else if k = a then m ! b else m ! k)"
  by (simp add: swap_rows_def nth_list_update)

lemma swap_rows_length [simp]: "length (swap_rows m a b) = length m"
  by (simp add: swap_rows_def)

lemma rect_swap: "rect rows cols m \<Longrightarrow> a < rows \<Longrightarrow> b < rows \<Longrightarrow> rect rows cols (swap_rows m a b)"
  by (auto simp: rect_def list_all_length swap_rows_nth)

lemma sols_swap:
  assumes "a < length m" "b < length m"
  shows "sols n (swap_rows m a b) v = sols n m v"
proof
  assume h: "sols n (swap_rows m a b) v"
  show "sols n m v"
    unfolding sols_def
  proof (intro allI impI)
    fix k assume k: "k < length m"
    let ?k' = "if k = a then b else if k = b then a else k"
    have "?k' < length m" using assms k by simp
    with h have "row_holds n v (swap_rows m a b ! ?k')"
      by (simp add: sols_def)
    moreover have "swap_rows m a b ! ?k' = m ! k"
      using assms k by (simp add: swap_rows_nth)
    ultimately show "row_holds n v (m ! k)" by simp
  qed
next
  assume h: "sols n m v"
  show "sols n (swap_rows m a b) v"
    using h assms by (auto simp: sols_def swap_rows_nth)
qed

lemma row_holds_scale:
  assumes "p \<noteq> 0" "n < length r"
  shows "row_holds n v (map (\<lambda>x. x / p) r) = row_holds n v r"
proof -
  have "(\<Sum>j<n. map (\<lambda>x. x / p) r ! j * v ! j) = (\<Sum>j<n. r ! j * v ! j) / p"
    using assms by (simp add: sum_divide_distrib)
  then show ?thesis
    using assms by (simp add: row_holds_def)
qed

lemma row_holds_sub:
  assumes "row_holds n v ri" "n < length ri" "length rj = length ri"
  shows "row_holds n v (map2 (\<lambda>x y. x - f * y) rj ri) = row_holds n v rj"
proof -
  have "(\<Sum>j<n. map2 (\<lambda>x y. x - f * y) rj ri ! j * v ! j)
        = (\<Sum>j<n. rj ! j * v ! j) - f * (\<Sum>j<n. ri ! j * v ! j)"
    using assms by (simp add: sum_subtractf sum_distrib_left algebra_simps)
  then show ?thesis
    using assms by (simp add: row_holds_def)
qed

lemma sols_update_scale:
  assumes "rect rows cols m" "i < rows" "n < cols" "p \<noteq> 0"
  shows "sols n (m[i := map (\<lambda>x. x / p) (m ! i)]) v = sols n m v"
proof -
  have len: "length m = rows" "length (m ! i) = cols"
    using assms by (simp_all add: rect_length rect_nth)
  have "row_holds n v (map (\<lambda>x. x / p) (m ! i)) = row_holds n v (m ! i)"
    using assms len by (intro row_holds_scale) simp_all
  then show ?thesis
    using assms len by (auto simp: sols_def nth_list_update)
qed

lemma sols_update_sub:
  assumes "rect rows cols m" "i < rows" "j < rows" "j \<noteq> i" "n < cols"
  shows "sols n (m[j := map2 (\<lambda>x y. x - f * y) (m ! j) (m ! i)]) v = sols n m v"
proof -
  have len: "length m = rows" "length (m ! i) = cols" "length (m ! j) = cols"
    using assms by (simp_all add: rect_length rect_nth)
  have eq: "row_holds n v (m ! i) \<Longrightarrow>
        row_holds n v (map2 (\<lambda>x y. x - f * y) (m ! j) (m ! i)) = row_holds n v (m ! j)"
    using assms len by (intro row_holds_sub) simp_all
  show ?thesis
  proof
    assume h: "sols n (m[j := map2 (\<lambda>x y. x - f * y) (m ! j) (m ! i)]) v"
    have hi: "row_holds n v (m ! i)"
      using h assms len by (auto simp: sols_def nth_list_update dest!: spec [of _ i])
    show "sols n m v"
      unfolding sols_def
    proof (intro allI impI)
      fix k assume k: "k < length m"
      from h k have "row_holds n v (m[j := map2 (\<lambda>x y. x - f * y) (m ! j) (m ! i)] ! k)"
        by (simp add: sols_def)
      then show "row_holds n v (m ! k)"
        using eq [OF hi] k by (cases "k = j") (simp_all add: nth_list_update)
    qed
  next
    assume h: "sols n m v"
    then have hi: "row_holds n v (m ! i)"
      using assms len by (simp add: sols_def)
    show "sols n (m[j := map2 (\<lambda>x y. x - f * y) (m ! j) (m ! i)]) v"
      unfolding sols_def
    proof (intro allI impI)
      fix k assume k: "k < length (m[j := map2 (\<lambda>x y. x - f * y) (m ! j) (m ! i)])"
      with h have "row_holds n v (m ! k)" by (simp add: sols_def)
      then show "row_holds n v (m[j := map2 (\<lambda>x y. x - f * y) (m ! j) (m ! i)] ! k)"
        using eq [OF hi] k by (cases "k = j") (simp_all add: nth_list_update)
    qed
  qed
qed

lemma gj_eliminate_rect:
  assumes "rect rows cols m" "i < rows" "j < rows" "i < cols"
  shows "gj_eliminate cols i j m =
           Inr (if j \<noteq> i \<and> tol < \<bar>m ! j ! i\<bar>
                then m[j := map2 (\<lambda>x y. x - m ! j ! i * y) (m ! j) (m ! i)] else m)"
proof -
  have len: "length m = rows" "length (m ! i) = cols" "length (m ! j) = cols"
    using assms by (simp_all add: rect_length rect_nth)
  show ?thesis
    using assms len by (simp add: gj_eliminate_def sub_row_rect)
qed

lemma gj_select_rect:
  assumes "rect rows cols m" "i < cols" "j < rows" "p < rows"
  shows "gj_select m i j p = Inr (if \<bar>m ! j ! i\<bar> > \<bar>m ! p ! i\<bar> then j else p)"
  using assms by (simp add: gj_select_def rect_length rect_nth)

lemma gj_pivot_search:
  assumes "rect rows cols m" "i < cols" "i < rows"
  shows "\<exists>p. foldE (gj_select m i) [i + 1..<rows] i = Inr p \<and> i \<le> p \<and> p < rows \<and>
             (\<forall>j. i \<le> j \<and> j < rows \<longrightarrow> \<bar>m ! j ! i\<bar> \<le> \<bar>m ! p ! i\<bar>) \<and>
             (p \<noteq> i \<longrightarrow> \<bar>m ! i ! i\<bar> < \<bar>m ! p ! i\<bar>)"
proof -
  let ?P = "\<lambda>k p. i \<le> p \<and> p < k \<and> (\<forall>j. i \<le> j \<and> j < k \<longrightarrow> \<bar>m ! j ! i\<bar> \<le> \<bar>m ! p ! i\<bar>) \<and>
             (p \<noteq> i \<longrightarrow> \<bar>m ! i ! i\<bar> < \<bar>m ! p ! i\<bar>)"
  have "\<exists>p. foldE (gj_select m i) [i + 1..<rows] i = Inr p \<and> ?P rows p"
  proof (rule foldE_upt_invariant [where P = ?P])
    have "\<And>j. i \<le> j \<and> j < i + 1 \<Longrightarrow> j = i" by simp
    then have "\<forall>j. i \<le> j \<and> j < i + 1 \<longrightarrow> \<bar>m ! j ! i\<bar> \<le> \<bar>m ! i ! i\<bar>" by blast
    then show "?P (i + 1) i" by simp
  next
    show "i + 1 \<le> rows" using assms by simp
  next
    fix k s assume k: "i + 1 \<le> k" "k < rows" and s: "?P k s"
    from k s have "s < rows" by linarith
    then have sel: "gj_select m i k s = Inr (if \<bar>m ! k ! i\<bar> > \<bar>m ! s ! i\<bar> then k else s)"
      using assms k by (intro gj_select_rect) simp_all
    show "\<exists>s'. gj_select m i k s = Inr s' \<and> ?P (Suc k) s'"
    proof (cases "\<bar>m ! k ! i\<bar> > \<bar>m ! s ! i\<bar>")
      case True
      have "\<forall>j. i \<le> j \<and> j < Suc k \<longrightarrow> \<bar>m ! j ! i\<bar> \<le> \<bar>m ! k ! i\<bar>"
      proof (intro allI impI)
        fix j assume j: "i \<le> j \<and> j < Suc k"
        show "\<bar>m ! j ! i\<bar> \<le> \<bar>m ! k ! i\<bar>"
        proof (cases "j = k")
          case False
          with j s have "\<bar>m ! j ! i\<bar> \<le> \<bar>m ! s ! i\<bar>" by simp
          with True show ?thesis by simp
        qed simp
      qed
      moreover have "\<bar>m ! i ! i\<bar> < \<bar>m ! k ! i\<bar>"
      proof -
        from s have "\<bar>m ! i ! i\<bar> \<le> \<bar>m ! s ! i\<bar>" using k by simp
        with True show ?thesis by simp
      qed
      ultimately show ?thesis using sel True k by simp
    next
      case False
      have "\<forall>j. i \<le> j \<and> j < Suc k \<longrightarrow> \<bar>m ! j ! i\<bar> \<le> \<bar>m ! s ! i\<bar>"
      proof (intro allI impI)
        fix j assume j: "i \<le> j \<and> j < Suc k"
        show "\<bar>m ! j ! i\<bar> \<le> \<bar>m ! s ! i\<bar>"
          using j s False by (cases "j = k") simp_all
      qed
      then show ?thesis using sel False s by simp
    qed
  qed
  then show ?thesis by auto
qed


lemma gj_eliminate_props:
  assumes "rect rows cols m" "i < rows" "j < rows" "i < cols" "n < cols"
  shows "\<exists>m'. gj_eliminate cols i j m = Inr m' \<and> rect rows cols m' \<and>
              (\<forall>v. sols n m' v = sols n m v)"
proof (cases "j \<noteq> i \<and> tol < \<bar>m ! j ! i\<bar>")
  case True
  let ?r = "map2 (\<lambda>x y. x - m ! j ! i * y) (m ! j) (m ! i)"
  have len: "length (m ! i) = cols" "length (m ! j) = cols"
    using assms by (simp_all add: rect_nth)
  have "gj_eliminate cols i j m = Inr (m[j := ?r])"
    using assms True by (simp add: gj_eliminate_rect)
  moreover have "rect rows cols (m[j := ?r])"
    using assms len by (intro rect_update) simp_all
  moreover have "\<forall>v. sols n (m[j := ?r]) v = sols n m v"
  proof
    fix v
    from True have ji: "j \<noteq> i" by simp
    show "sols n (m[j := ?r]) v = sols n m v"
      by (rule sols_update_sub [OF assms(1) assms(2) assms(3) ji assms(5)])
  qed
  ultimately show ?thesis by blast
next
  case False
  have "gj_eliminate cols i j m = Inr m"
    unfolding gj_eliminate_rect [OF assms(1) assms(2) assms(3) assms(4)]
    using False by (simp only: if_False)
  with assms show ?thesis by simp
qed

lemma gj_elim_loop:
  assumes "rect rows cols m" "i < rows" "i < cols" "n < cols"
  shows "\<exists>m'. foldE (gj_eliminate cols i) [0..<rows] m = Inr m' \<and> rect rows cols m' \<and>
              (\<forall>v. sols n m' v = sols n m v)"
proof (rule foldE_invariant [where P = "\<lambda>m'. rect rows cols m' \<and> (\<forall>v. sols n m' v = sols n m v)"])
  show "rect rows cols m \<and> (\<forall>v. sols n m v = sols n m v)"
    using assms by simp
next
  fix j s
  assume j: "j \<in> set [0..<rows]" and s: "rect rows cols s \<and> (\<forall>v. sols n s v = sols n m v)"
  then have "\<exists>m'. gj_eliminate cols i j s = Inr m' \<and> rect rows cols m' \<and>
              (\<forall>v. sols n m' v = sols n s v)"
    using assms by (intro gj_eliminate_props) simp_all
  with s show "\<exists>s'. gj_eliminate cols i j s = Inr s' \<and> rect rows cols s' \<and>
              (\<forall>v. sols n s' v = sols n m v)"
    by auto
qed

lemma gj_step_props:
  assumes "rect rows cols m" "i < rows" "i < cols" "n < cols"
  shows "\<exists>m'. gj_step rows cols i m = Inr m' \<and> rect rows cols m' \<and>
              (\<forall>v. sols n m' v = sols n m v)"
proof -
  from gj_pivot_search [OF assms(1) assms(3) assms(2)]
  obtain p where p: "foldE (gj_select m i) [i + 1..<rows] i = Inr p" "i \<le> p" "p < rows"
    by blast
  define m1 where "m1 = (if p \<noteq> i then swap_rows m i p else m)"
  have len: "length m = rows" using assms by (simp add: rect_length)
  have m1: "rect rows cols m1" "\<forall>v. sols n m1 v = sols n m v"
    using assms p len by (auto simp: m1_def rect_swap sols_swap)
  have li: "length (m1 ! i) = cols" "length m1 = rows"
    using m1 assms by (simp_all add: rect_nth rect_length)
  define pivot where "pivot = m1 ! i ! i"
  have step: "gj_step rows cols i m =
      (if \<bar>pivot\<bar> < tol then Inr m1
       else foldE (gj_eliminate cols i) [0..<rows] (m1[i := map (\<lambda>x. x / pivot) (m1 ! i)]))"
    using p li assms by (simp add: gj_step_def m1_def [symmetric] pivot_def scale_row_rect)
  show ?thesis
  proof (cases "\<bar>pivot\<bar> < tol")
    case True
    with step m1 show ?thesis by simp
  next
    case False
    then have nz: "pivot \<noteq> 0" using tol_pos by auto
    let ?m2 = "m1[i := map (\<lambda>x. x / pivot) (m1 ! i)]"
    have m2: "rect rows cols ?m2"
      using m1 li by (intro rect_update) simp_all
    have s2: "\<forall>v. sols n ?m2 v = sols n m v"
      using m1 assms nz sols_update_scale [OF m1(1) assms(2) assms(4) nz] by simp
    from gj_elim_loop [OF m2 assms(2) assms(3) assms(4)] s2 False step
    show ?thesis by auto
  qed
qed

lemma gj_loop_props:
  assumes "rect rows cols m" "n < cols" "b \<le> rows" "b \<le> cols - 1"
  shows "\<exists>R. foldE (gj_step rows cols) [0..<b] m = Inr R \<and> rect rows cols R \<and>
             (\<forall>v. sols n R v = sols n m v)"
proof -
  let ?P = "\<lambda>(k::nat) m'. rect rows cols m' \<and> (\<forall>v. sols n m' v = sols n m v)"
  have "\<exists>R. foldE (gj_step rows cols) [0..<b] m = Inr R \<and> ?P b R"
  proof (rule foldE_upt_invariant [where P = ?P])
    show "?P 0 m" using assms by simp
  next
    fix k s assume k: "k < b" and s: "?P k s"
    then have "\<exists>m'. gj_step rows cols k s = Inr m' \<and> rect rows cols m' \<and>
              (\<forall>v. sols n m' v = sols n s v)"
      using assms by (intro gj_step_props) simp_all
    with s show "\<exists>s'. gj_step rows cols k s = Inr s' \<and> ?P (Suc k) s'" by auto
  qed simp
  then show ?thesis by simp
qed

lemma gauss_jordan_props:
  assumes "rect rows cols m" "0 < rows" "n < cols"
  shows "\<exists>R. gauss_jordan m = Inr R \<and> rect rows cols R \<and> (\<forall>v. sols n R v = sols n m v)"
proof -
  have len: "length m = rows" "length (m ! 0) = cols"
    using assms by (simp_all add: rect_length rect_nth)
  have "gauss_jordan m = foldE (gj_step rows cols) [0..<min rows (cols - 1)] m"
    using assms len by (simp add: gauss_jordan_def)
  with gj_loop_props [OF assms(1) assms(3), of "min rows (cols - 1)"] show ?thesis
    by simp
qed

lemma gauss_jordan_total:
  assumes "rect rows cols m" "0 < rows"
  shows "\<exists>R. gauss_jordan m = Inr R \<and> rect rows cols R"
proof (cases "cols = 0")
  case True
  have "length m = rows" "length (m ! 0) = cols"
    using assms by (simp_all add: rect_length rect_nth)
  then have "gauss_jordan m = Inr m"
    using assms True by (simp add: gauss_jordan_def)
  with assms show ?thesis by simp
next
  case False
  then have "0 < cols" by simp
  from gauss_jordan_props [OF assms this] show ?thesis by blast
qed


lemma find_pivot_props:
  assumes "rect rows cols m" "col < cols" "\<forall>r\<in>set rs. r < rows"
  shows "\<exists>res. find_pivot m col rs = Inr res \<and>
           (case res of None \<Rightarrow> True | Some p \<Rightarrow> p \<in> set rs \<and> tol < \<bar>m ! p ! col\<bar>)"
  using assms(3)
proof (induction rs)
  case Nil
  show ?case by simp
next
  case (Cons r rs)
  then have r: "r < rows" by simp
  then have e: "entry m r col = Inr (m ! r ! col)"
    using assms by (simp add: rect_length rect_nth)
  show ?case
  proof (cases "tol < \<bar>m ! r ! col\<bar>")
    case True
    with e show ?thesis by simp
  next
    case False
    from Cons have "\<exists>res. find_pivot m col rs = Inr res \<and>
           (case res of None \<Rightarrow> True | Some p \<Rightarrow> p \<in> set rs \<and> tol < \<bar>m ! p ! col\<bar>)"
      by simp
    with e False show ?thesis
      by (auto split: option.splits)
  qed
qed

lemma cr_eliminate_rect:
  assumes "rect rows cols m" "rank < rows" "row < rows" "col < cols"
  shows "cr_eliminate cols col rank row m =
           Inr (if row \<noteq> rank \<and> tol < \<bar>m ! row ! col\<bar>
                then m[row := map2 (\<lambda>x y. x - m ! row ! col / m ! rank ! col * y) (m ! row) (m ! rank)]
                else m)"
proof -
  have len: "length m = rows" "length (m ! rank) = cols" "length (m ! row) = cols"
    using assms by (simp_all add: rect_length rect_nth)
  show ?thesis
    using assms len by (simp add: cr_eliminate_def sub_row_rect Let_def)
qed

lemma cr_eliminate_props:
  assumes "rect rows cols m" "rank < rows" "row < rows" "col < cols"
  shows "\<exists>m'. cr_eliminate cols col rank row m = Inr m' \<and> rect rows cols m'"
proof -
  have len: "length (m ! rank) = cols" "length (m ! row) = cols"
    using assms by (simp_all add: rect_nth)
  have "rect rows cols (m[row := map2 (\<lambda>x y. x - m ! row ! col / m ! rank ! col * y) (m ! row) (m ! rank)])"
    using assms len by (intro rect_update) simp_all
  with assms show ?thesis
    unfolding cr_eliminate_rect [OF assms] by simp
qed

lemma cr_elim_loop:
  assumes "rect rows cols m" "rank < rows" "col < cols"
  shows "\<exists>m'. foldE (cr_eliminate cols col rank) [0..<rows] m = Inr m' \<and> rect rows cols m'"
proof (rule foldE_invariant [where P = "rect rows cols"])
  show "rect rows cols m" by (rule assms(1))
next
  fix x s assume "x \<in> set [0..<rows]" "rect rows cols s"
  then show "\<exists>s'. cr_eliminate cols col rank x s = Inr s' \<and> rect rows cols s'"
    using assms by (intro cr_eliminate_props) simp_all
qed

lemma cr_step_props:
  assumes "rect rows cols m" "col < cols"
  shows "\<exists>m' r'. cr_step rows cols col (m, rank) = Inr (m', r') \<and> rect rows cols m' \<and>
           rank \<le> r' \<and> r' \<le> rank + 1 \<and> (r' \<noteq> rank \<longrightarrow> rank < rows)"
proof -
  have "\<forall>r\<in>set [rank..<rows]. r < rows" by simp
  from find_pivot_props [OF assms this]
  obtain res where res: "find_pivot m col [rank..<rows] = Inr res"
    "case res of None \<Rightarrow> True | Some p \<Rightarrow> p \<in> set [rank..<rows] \<and> tol < \<bar>m ! p ! col\<bar>"
    by blast
  show ?thesis
  proof (cases res)
    case None
    with res assms show ?thesis by (simp add: cr_step_def)
  next
    case (Some p)
    with res have p: "rank \<le> p" "p < rows" by simp_all
    then have rk: "rank < rows" by simp
    define m1 where "m1 = (if p \<noteq> rank then swap_rows m rank p else m)"
    have m1: "rect rows cols m1"
      using assms p rk by (simp add: m1_def rect_swap)
    from cr_elim_loop [OF m1 rk assms(2)]
    obtain m2 where m2: "foldE (cr_eliminate cols col rank) [0..<rows] m1 = Inr m2" "rect rows cols m2"
      by blast
    have "cr_step rows cols col (m, rank) = Inr (m2, rank + 1)"
      using res Some m2 by (simp add: cr_step_def m1_def [symmetric])
    with m2 rk show ?thesis by simp
  qed
qed

lemma cr_loop_props:
  assumes "rect rows cols m" "b \<le> cols"
  shows "\<exists>m' r. foldE (cr_step rows cols) [0..<b] (m, 0) = Inr (m', r) \<and> rect rows cols m' \<and>
           r \<le> b \<and> r \<le> rows"
proof -
  let ?P = "\<lambda>k s. rect rows cols (fst s) \<and> snd s \<le> k \<and> snd s \<le> rows"
  have "\<exists>s. foldE (cr_step rows cols) [0..<b] (m, 0) = Inr s \<and> ?P b s"
  proof (rule foldE_upt_invariant [where P = ?P])
    show "?P 0 (m, 0)" using assms by simp
  next
    fix k s assume k: "k < b" and s: "?P k s"
    obtain m0 r0 where s0: "s = (m0, r0)" by (cases s)
    with s have m0: "rect rows cols m0" by simp
    have kc: "k < cols" using k assms by simp
    from cr_step_props [OF m0 kc, of r0]
    obtain m' r' where st: "cr_step rows cols k (m0, r0) = Inr (m', r')" "rect rows cols m'"
      "r0 \<le> r'" "r' \<le> r0 + 1" "r' \<noteq> r0 \<longrightarrow> r0 < rows"
      by blast
    have "r' \<le> Suc k \<and> r' \<le> rows"
      using st s s0 by (cases "r' = r0") auto
    with st s0 show "\<exists>s'. cr_step rows cols k s = Inr s' \<and> ?P (Suc k) s'" by simp
  qed simp
  then show ?thesis by auto
qed

lemma check_rank_props:
  assumes "rect rows cols m"
  shows "\<exists>r. check_rank m = Inr r \<and> r \<le> rows \<and> r \<le> cols"
proof (cases "m = [] \<or> hd m = []")
  case True
  then show ?thesis by (simp add: check_rank_def)
next
  case False
  then have len: "length m = rows" "length (hd m) = cols"
    using assms by (auto simp: rect_def list_all_iff)
  from cr_loop_props [OF assms, of cols]
  obtain m' r where "foldE (cr_step rows cols) [0..<cols] (m, 0) = Inr (m', r)" "r \<le> cols" "r \<le> rows"
    by auto
  with False len show ?thesis
    by (simp add: check_rank_def)
qed

subsection \<open>The rank of a matrix and of the matrix without its last column\<close>

lemma rectangular_rect: "rectangular m \<Longrightarrow> rect (length m) (length (hd m)) m"
  by (simp add: rectangular_def rect_def)

lemma foldE_rel:
  assumes "R s t"
    and "\<And>x s t. x \<in> set xs \<Longrightarrow> R s t \<Longrightarrow> \<exists>s' t'. f x s = Inr s' \<and> g x t = Inr t' \<and> R s' t'"
  shows "\<exists>s' t'. foldE f xs s = Inr s' \<and> foldE g xs t = Inr t' \<and> R s' t'"
  using assms
proof (induction xs arbitrary: s t)
  case Nil
  then show ?case by simp
next
  case (Cons x xs)
  from Cons.prems obtain s1 t1 where st: "f x s = Inr s1" "g x t = Inr t1" "R s1 t1"
    by (meson list.set_intros(1))
  have "\<exists>s' t'. foldE f xs s1 = Inr s' \<and> foldE g xs t1 = Inr t' \<and> R s' t'"
  proof (rule Cons.IH [OF st(3)])
    fix y s t assume "y \<in> set xs" "R s t"
    then show "\<exists>s' t'. f y s = Inr s' \<and> g y t = Inr t' \<and> R s' t'"
      using Cons.prems(2) [of y s t] by simp
  qed
  with st show ?case by simp
qed

lemma butlast_map2:
  "length xs = length ys \<Longrightarrow> butlast (map2 f xs ys) = map2 f (butlast xs) (butlast ys)"
  by (simp add: butlast_conv_take take_map take_zip)

lemma rect_butlast: "rect rows (Suc n) G \<Longrightarrow> rect rows n (map butlast G)"
  by (simp add: rect_def list_all_length)

lemma butlast_entry:
  assumes "rect rows (Suc n) G" "r < rows" "c < n"
  shows "map butlast G ! r ! c = G ! r ! c"
  using assms by (simp add: rect_length rect_nth nth_butlast)

lemma swap_rows_butlast:
  "a < length G \<Longrightarrow> b < length G \<Longrightarrow> map butlast (swap_rows G a b) = swap_rows (map butlast G) a b"
  by (simp add: swap_rows_def map_update)

lemma find_pivot_butlast:
  assumes "rect rows (Suc n) G" "col < n" "\<forall>r\<in>set rs. r < rows"
  shows "find_pivot (map butlast G) col rs = find_pivot G col rs"
  using assms(3)
proof (induction rs)
  case Nil
  show ?case by simp
next
  case (Cons r rs)
  then have r: "r < rows" by simp
  have e1: "entry G r col = Inr (G ! r ! col)"
    using assms r by (simp add: rect_length rect_nth)
  have "rect rows n (map butlast G)" using assms by (simp add: rect_butlast)
  then have e2: "entry (map butlast G) r col = Inr (map butlast G ! r ! col)"
    using assms r by (intro entry_in) (simp_all add: rect_length rect_nth)
  from Cons e1 e2 butlast_entry [OF assms(1) r assms(2)] show ?case by simp
qed

lemma cr_eliminate_butlast:
  assumes "rect rows (Suc n) G" "rank < rows" "row < rows" "col < n"
  shows "\<exists>G'. cr_eliminate (Suc n) col rank row G = Inr G' \<and> rect rows (Suc n) G' \<and>
           cr_eliminate n col rank row (map butlast G) = Inr (map butlast G')"
proof -
  have A: "rect rows n (map butlast G)" using assms by (simp add: rect_butlast)
  have c: "col < Suc n" using assms by simp
  have len: "length G = rows" "length (G ! row) = Suc n" "length (G ! rank) = Suc n"
    using assms by (simp_all add: rect_length rect_nth)
  let ?f = "\<lambda>x y. x - G ! row ! col / G ! rank ! col * y"
  have e: "map butlast G ! row ! col = G ! row ! col" "map butlast G ! rank ! col = G ! rank ! col"
    using assms by (simp_all add: butlast_entry)
  have upd: "(map butlast G)[row := map2 ?f (map butlast G ! row) (map butlast G ! rank)]
        = map butlast (G[row := map2 ?f (G ! row) (G ! rank)])"
    using assms len by (simp add: map_update butlast_map2)
  from cr_eliminate_props [OF assms(1) assms(2) assms(3) c]
  obtain G' where G': "cr_eliminate (Suc n) col rank row G = Inr G'" "rect rows (Suc n) G'"
    by blast
  have "cr_eliminate n col rank row (map butlast G) = Inr (map butlast G')"
    using G'(1) upd e
    unfolding cr_eliminate_rect [OF assms(1) assms(2) assms(3) c]
      cr_eliminate_rect [OF A assms(2) assms(3) assms(4)]
    by (auto split: if_splits)
  with G' show ?thesis by blast
qed

lemma cr_step_butlast:
  assumes "rect rows (Suc n) G" "col < n"
  shows "\<exists>G' r'. cr_step rows (Suc n) col (G, rank) = Inr (G', r') \<and> rect rows (Suc n) G' \<and>
           cr_step rows n col (map butlast G, rank) = Inr (map butlast G', r')"
proof -
  have c: "col < Suc n" using assms by simp
  have rs: "\<forall>r\<in>set [rank..<rows]. r < rows" by simp
  from find_pivot_props [OF assms(1) c rs]
  obtain res where res: "find_pivot G col [rank..<rows] = Inr res"
    "case res of None \<Rightarrow> True | Some p \<Rightarrow> p \<in> set [rank..<rows] \<and> tol < \<bar>G ! p ! col\<bar>"
    by blast
  have resA: "find_pivot (map butlast G) col [rank..<rows] = Inr res"
    using res find_pivot_butlast [OF assms rs] by simp
  show ?thesis
  proof (cases res)
    case None
    with res resA assms show ?thesis by (simp add: cr_step_def)
  next
    case (Some p)
    with res have p: "rank \<le> p" "p < rows" by simp_all
    then have rk: "rank < rows" by simp
    have len: "length G = rows" using assms by (simp add: rect_length)
    define G1 where "G1 = (if p \<noteq> rank then swap_rows G rank p else G)"
    have G1: "rect rows (Suc n) G1"
      using assms p rk by (simp add: G1_def rect_swap)
    have A1: "(if p \<noteq> rank then swap_rows (map butlast G) rank p else map butlast G) = map butlast G1"
      using p rk len by (simp add: G1_def swap_rows_butlast)
    have "\<exists>G2 A2. foldE (cr_eliminate (Suc n) col rank) [0..<rows] G1 = Inr G2 \<and>
            foldE (cr_eliminate n col rank) [0..<rows] (map butlast G1) = Inr A2 \<and>
            (rect rows (Suc n) G2 \<and> A2 = map butlast G2)"
    proof (rule foldE_rel [where R = "\<lambda>G A. rect rows (Suc n) G \<and> A = map butlast G"])
      show "rect rows (Suc n) G1 \<and> map butlast G1 = map butlast G1" using G1 by simp
    next
      fix x s t assume x: "x \<in> set [0..<rows]" and st: "rect rows (Suc n) s \<and> t = map butlast s"
      then have xr: "x < rows" by simp
      from cr_eliminate_butlast [OF _ rk xr assms(2), of s] st
      show "\<exists>s' t'. cr_eliminate (Suc n) col rank x s = Inr s' \<and>
              cr_eliminate n col rank x t = Inr t' \<and> rect rows (Suc n) s' \<and> t' = map butlast s'"
        by auto
    qed
    then obtain G2 where G2: "foldE (cr_eliminate (Suc n) col rank) [0..<rows] G1 = Inr G2"
      "foldE (cr_eliminate n col rank) [0..<rows] (map butlast G1) = Inr (map butlast G2)"
      "rect rows (Suc n) G2"
      by blast
    have "cr_step rows (Suc n) col (G, rank) = Inr (G2, rank + 1)"
      using res Some G2 by (simp add: cr_step_def G1_def [symmetric])
    moreover have "cr_step rows n col (map butlast G, rank) = Inr (map butlast G2, rank + 1)"
      using resA Some G2 A1 by (simp add: cr_step_def)
    ultimately show ?thesis using G2 by simp
  qed
qed

lemma cr_loop_butlast:
  assumes "rect rows (Suc n) G"
  shows "\<exists>G' r. foldE (cr_step rows (Suc n)) [0..<n] (G, 0) = Inr (G', r) \<and> rect rows (Suc n) G' \<and>
           foldE (cr_step rows n) [0..<n] (map butlast G, 0) = Inr (map butlast G', r)"
proof -
  let ?R = "\<lambda>(s :: matrix \<times> nat) (t :: matrix \<times> nat).
              rect rows (Suc n) (fst s) \<and> t = (map butlast (fst s), snd s)"
  have "\<exists>s' t'. foldE (cr_step rows (Suc n)) [0..<n] (G, 0) = Inr s' \<and>
          foldE (cr_step rows n) [0..<n] (map butlast G, 0) = Inr t' \<and> ?R s' t'"
  proof (rule foldE_rel [where R = ?R])
    show "?R (G, 0) (map butlast G, 0)" using assms by simp
  next
    fix x s t assume x: "x \<in> set [0..<n]" and st: "?R s t"
    obtain G0 r0 where s0: "s = (G0, r0)" by (cases s)
    from x have xn: "x < n" by simp
    from st s0 have G0: "rect rows (Suc n) G0" and t: "t = (map butlast G0, r0)" by simp_all
    from cr_step_butlast [OF G0 xn, of r0] s0 t
    show "\<exists>s' t'. cr_step rows (Suc n) x s = Inr s' \<and> cr_step rows n x t = Inr t' \<and> ?R s' t'"
      by auto
  qed
  then show ?thesis by auto
qed

lemma check_rank_butlast_le:
  assumes "rect rows (Suc n) G"
  shows "\<exists>ra rg. check_rank (map butlast G) = Inr ra \<and> check_rank G = Inr rg \<and> ra \<le> rg"
proof (cases "rows = 0 \<or> n = 0")
  case True
  have A: "rect rows n (map butlast G)" using assms by (simp add: rect_butlast)
  from check_rank_props [OF assms] obtain rg where rg: "check_rank G = Inr rg" by blast
  from check_rank_props [OF A] obtain ra where ra: "check_rank (map butlast G) = Inr ra" "ra \<le> rows" "ra \<le> n"
    by blast
  with True have "ra = 0" by auto
  with ra rg show ?thesis by simp
next
  case False
  then have pos: "0 < rows" "0 < n" by simp_all
  have len: "length G = rows" using assms by (simp add: rect_length)
  with pos have ne: "G \<noteq> []" by auto
  then have hd: "length (hd G) = Suc n"
    using assms by (auto simp: rect_def list_all_iff)
  have hdA: "length (hd (map butlast G)) = n"
    using ne hd by (simp add: hd_map)
  from cr_loop_butlast [OF assms]
  obtain G' r where loop: "foldE (cr_step rows (Suc n)) [0..<n] (G, 0) = Inr (G', r)"
    "rect rows (Suc n) G'"
    "foldE (cr_step rows n) [0..<n] (map butlast G, 0) = Inr (map butlast G', r)"
    by blast
  from cr_step_props [OF loop(2), of n r]
  obtain G'' r' where last: "cr_step rows (Suc n) n (G', r) = Inr (G'', r')" "r \<le> r'"
    by auto
  from hd have hdne: "hd G \<noteq> []" by auto
  have "check_rank G = Inr r'"
    using ne hd hdne len loop(1) last(1) by (simp add: check_rank_def foldE_append)
  moreover have "check_rank (map butlast G) = Inr r"
    using ne hdA len loop(3) pos by (auto simp: check_rank_def)
  ultimately show ?thesis using last(2) by simp
qed

lemma augment_rect:
  assumes "rect rows n A" "length B = rows"
  shows "rect rows (Suc n) (augment A B)" "map butlast (augment A B) = A"
proof -
  have len: "length A = rows" using assms by (simp add: rect_length)
  show "rect rows (Suc n) (augment A B)"
    using assms len by (auto simp: rect_def augment_def list_all_length)
  show "map butlast (augment A B) = A"
    using assms len by (intro nth_equalityI) (simp_all add: augment_def)
qed

subsection \<open>The matrix builder and the solution generator return\<close>

lemma mapE_all:
  assumes "\<And>x. x \<in> set xs \<Longrightarrow> \<exists>y. f x = Inr y \<and> P x y"
  shows "\<exists>ys. mapE f xs = Inr ys \<and> list_all2 P xs ys"
  using assms
proof (induction xs)
  case Nil
  show ?case by simp
next
  case (Cons x xs)
  from Cons.prems obtain y where y: "f x = Inr y" "P x y" by (meson list.set_intros(1))
  from Cons obtain ys where "mapE f xs = Inr ys" "list_all2 P xs ys" by auto
  with y show ?case by simp
qed

lemma index_of_props:
  "v \<in> set xs \<Longrightarrow> \<exists>i. index_of xs v = Inr i \<and> i < length xs \<and> xs ! i = v"
proof (induction xs)
  case Nil
  then show ?case by simp
next
  case (Cons x xs)
  show ?case
  proof (cases "x = v")
    case True
    then show ?thesis by simp
  next
    case False
    with Cons obtain i where "index_of xs v = Inr i" "i < length xs" "xs ! i = v" by auto
    with False show ?thesis by simp
  qed
qed

lemma sum_update_row:
  assumes "idx < length (row :: rat list)" "length row = n"
  shows "(\<Sum>j<n. row[idx := row ! idx + c] ! j * w j) = (\<Sum>j<n. row ! j * w j) + c * w idx"
proof -
  have "(\<Sum>j<n. row[idx := row ! idx + c] ! j * w j)
        = (\<Sum>j<n. row ! j * w j + (if j = idx then c * w idx else 0))"
    using assms by (intro sum.cong) (auto simp: nth_list_update distrib_right)
  also have "\<dots> = (\<Sum>j<n. row ! j * w j) + (\<Sum>j<n. if j = idx then c * w idx else 0)"
    by (simp add: sum.distrib)
  also have "(\<Sum>j<n. if j = idx then c * w idx else 0) = c * w idx"
    using assms by simp
  finally show ?thesis .
qed

lemma build_row_props:
  assumes "\<forall>t\<in>set terms. variable t \<in> set var_order"
  shows "\<exists>row. build_row var_order terms = Inr row \<and> length row = length var_order \<and>
           (distinct var_order \<longrightarrow>
            (\<Sum>j<length var_order. row ! j * f (var_order ! j))
              = (\<Sum>t\<leftarrow>terms. sign t * coefficient t * f (variable t)))"
proof -
  let ?n = "length var_order"
  let ?step = "\<lambda>t row. bindE (index_of var_order (variable t)) (\<lambda>idx.
              Inr (row[idx := row ! idx + sign t * coefficient t]))"
  have gen: "\<exists>row. foldE ?step terms row0 = Inr row \<and> length row = ?n \<and>
            ((\<Sum>j<?n. row ! j * f (var_order ! j))
              = (\<Sum>j<?n. row0 ! j * f (var_order ! j)) + (\<Sum>t\<leftarrow>terms. sign t * coefficient t * f (variable t)))"
    if "length row0 = ?n" for row0
    using assms that
  proof (induction terms arbitrary: row0)
    case Nil
    then show ?case by simp
  next
    case (Cons t ts)
    from Cons.prems have "variable t \<in> set var_order" by simp
    from index_of_props [OF this]
    obtain idx where idx: "index_of var_order (variable t) = Inr idx" "idx < ?n"
      "var_order ! idx = variable t" by blast
    let ?row1 = "row0[idx := row0 ! idx + sign t * coefficient t]"
    have l1: "length ?row1 = ?n" using Cons.prems by simp
    from Cons.IH [OF _ l1] Cons.prems
    obtain row where row: "foldE ?step ts ?row1 = Inr row" "length row = ?n"
      "(\<Sum>j<?n. row ! j * f (var_order ! j))
              = (\<Sum>j<?n. ?row1 ! j * f (var_order ! j)) + (\<Sum>t\<leftarrow>ts. sign t * coefficient t * f (variable t))"
      by force
    have "(\<Sum>j<?n. ?row1 ! j * f (var_order ! j))
        = (\<Sum>j<?n. row0 ! j * f (var_order ! j)) + sign t * coefficient t * f (var_order ! idx)"
      using idx Cons.prems by (intro sum_update_row) simp_all
    with row idx show ?case by (simp add: algebra_simps)
  qed
  have "length (replicate ?n (0::rat)) = ?n" by simp
  from gen [OF this] show ?thesis
    by (auto simp: build_row_def)
qed


lemma foldE_total:
  assumes "\<And>x s. x \<in> set xs \<Longrightarrow> \<exists>s'. f x s = Inr s'"
  shows "\<exists>s'. foldE f xs s = Inr s'"
proof -
  have "\<exists>s'. foldE f xs s = Inr s' \<and> True"
    by (rule foldE_invariant [where P = "\<lambda>_. True"]) (simp_all add: assms)
  then show ?thesis by simp
qed

lemma find_col_props:
  assumes "rect rows cols m" "row < rows" "\<forall>c\<in>set cs. c < cols"
  shows "\<exists>res. find_col m row cs = Inr res \<and>
           (case res of None \<Rightarrow> True | Some c \<Rightarrow> c \<in> set cs)"
  using assms(3)
proof (induction cs)
  case Nil
  show ?case by simp
next
  case (Cons c cs)
  then have c: "c < cols" by simp
  then have e: "entry m row c = Inr (m ! row ! c)"
    using assms by (simp add: rect_length rect_nth)
  show ?case
  proof (cases "tol < \<bar>m ! row ! c\<bar>")
    case True
    with e show ?thesis by simp
  next
    case False
    from Cons have "\<exists>res. find_col m row cs = Inr res \<and>
           (case res of None \<Rightarrow> True | Some c \<Rightarrow> c \<in> set cs)"
      by simp
    with e False show ?thesis
      by (auto split: option.splits)
  qed
qed

lemma find_col_upt:
  assumes "rect rows (Suc n) m" "row < rows"
  shows "\<exists>res. find_col m row [0..<n] = Inr res \<and>
           (case res of None \<Rightarrow> True | Some c \<Rightarrow> c < n)"
proof -
  have "\<forall>c\<in>set [0..<n]. c < Suc n" by simp
  from find_col_props [OF assms this] show ?thesis
    by (auto split: option.splits)
qed

lemma pivot_scan_total:
  assumes "rect rows (Suc n) m" "row < rows" "length var_order = n"
  shows "\<exists>s'. pivot_scan m var_order row s = Inr s'"
proof -
  obtain pc bv where s: "s = (pc, bv)" by (cases s)
  from find_col_upt [OF assms(1,2)]
  obtain res where res: "find_col m row [0..<n] = Inr res"
    "case res of None \<Rightarrow> True | Some c \<Rightarrow> c < n" by blast
  show ?thesis
    using res s assms(3) by (cases res) (simp_all add: pivot_scan_def)
qed

lemma free_var_values_length: "fv \<in> set (free_var_values k) \<Longrightarrow> length fv = k"
  by (auto simp: free_var_values_def split: if_splits)

lemma back_term_total:
  assumes "rect rows (Suc n) m" "row < rows" "length var_order = n" "col < n"
  shows "\<exists>r. back_term m var_order sol row col rhs = Inr r"
proof -
  have "entry m row col = Inr (m ! row ! col)"
    using assms by (simp add: rect_length rect_nth)
  then show ?thesis
    using assms by (simp add: back_term_def split: option.splits)
qed

lemma back_row_total:
  assumes "rect rows (Suc n) m" "row < rows" "length var_order = n"
  shows "\<exists>sol'. back_row m var_order row sol = Inr sol'"
proof -
  from find_col_upt [OF assms(1,2)]
  obtain res where res: "find_col m row [0..<n] = Inr res"
    "case res of None \<Rightarrow> True | Some c \<Rightarrow> c < n" by blast
  show ?thesis
  proof (cases res)
    case None
    with res assms show ?thesis by (simp add: back_row_def)
  next
    case (Some pc)
    with res have pc: "pc < n" by simp
    have len: "length m = rows" "length (m ! row) = Suc n"
      using assms by (simp_all add: rect_length rect_nth)
    then have ne: "m ! row \<noteq> []" by auto
    have e: "entry m row pc = Inr (m ! row ! pc)"
      using assms pc len by simp
    have "\<exists>rhs. foldE (back_term m var_order sol row) [pc + 1..<length var_order] (last (m ! row)) = Inr rhs"
    proof (rule foldE_total)
      fix x s assume "x \<in> set [pc + 1..<length var_order]"
      then have "x < n" using assms by simp
      from back_term_total [OF assms this] show "\<exists>s'. back_term m var_order sol row x s = Inr s'" .
    qed
    then obtain rhs where rhs: "foldE (back_term m var_order sol row) [pc + 1..<length var_order]
        (last (m ! row)) = Inr rhs" by blast
    show ?thesis
      using res Some pc assms len ne e rhs
      by (simp add: back_row_def last_item_def)
  qed
qed

lemma example_solution_total:
  assumes "rect rows (Suc n) m" "length var_order = n" "length free_values = length free_vars"
  shows "\<exists>sol. example_solution m var_order free_vars free_values = Inr sol"
proof -
  let ?set = "\<lambda>jv sol. bindE (item free_values (fst jv)) (\<lambda>x. Inr (AList.update (snd jv) x sol))"
  have "\<exists>sol0. foldE ?set (enumerate 0 free_vars) [] = Inr sol0"
  proof (rule foldE_total)
    fix x s assume "x \<in> set (enumerate 0 free_vars)"
    then have "fst x < length free_values"
      using assms by (auto simp: in_set_enumerate_eq)
    then show "\<exists>s'. ?set x s = Inr s'" by simp
  qed
  then obtain sol0 where sol0: "foldE ?set (enumerate 0 free_vars) [] = Inr sol0" by blast
  have "\<exists>sol. foldE (back_row m var_order) (rev [0..<length m]) sol0 = Inr sol"
  proof (rule foldE_total)
    fix x s assume "x \<in> set (rev [0..<length m])"
    then have "x < rows" using assms by (simp add: rect_length)
    from back_row_total [OF assms(1) this assms(2)]
    show "\<exists>s'. back_row m var_order x s = Inr s'" .
  qed
  with sol0 show ?thesis by (simp add: example_solution_def)
qed

lemma generate_infinite_solutions_total:
  assumes "rect rows (Suc n) m" "length var_order = n" "check_rank c = Inr r"
  shows "\<exists>b f ex. generate_infinite_solutions c m var_order = Inr (InfiniteSolutions b f ex)"
proof -
  have "\<exists>scan. foldE (pivot_scan m var_order) [0..<length m] ([], []) = Inr scan"
  proof (rule foldE_total)
    fix x s assume "x \<in> set [0..<length m]"
    then have "x < rows" using assms by (simp add: rect_length)
    from pivot_scan_total [OF assms(1) this assms(2)]
    show "\<exists>s'. pivot_scan m var_order x s = Inr s'" .
  qed
  then obtain scan where scan: "foldE (pivot_scan m var_order) [0..<length m] ([], []) = Inr scan"
    by blast
  define free_vars where
    "free_vars = map snd (filter (\<lambda>iv. fst iv \<notin> set (fst scan)) (enumerate 0 var_order))"
  have "\<exists>ex. mapE (example_solution m var_order free_vars) (free_var_values (length free_vars)) = Inr ex
          \<and> list_all2 (\<lambda>_ _. True) (free_var_values (length free_vars)) ex"
  proof (rule mapE_all)
    fix x assume "x \<in> set (free_var_values (length free_vars))"
    then have "length x = length free_vars" by (rule free_var_values_length)
    from example_solution_total [OF assms(1,2) this]
    show "\<exists>y. example_solution m var_order free_vars x = Inr y \<and> True" by simp
  qed
  then obtain ex where "mapE (example_solution m var_order free_vars)
      (free_var_values (length free_vars)) = Inr ex" by blast
  with scan assms(3) show ?thesis
    by (simp add: generate_infinite_solutions_def Let_def free_vars_def)
qed

subsection \<open>The solver returns on every non-empty system\<close>

lemma mapE_last_item:
  "\<forall>r\<in>set R. r \<noteq> [] \<Longrightarrow> mapE last_item R = Inr (map last R)"
  by (induction R) (simp_all add: last_item_def)

lemma build_matrix_props:
  assumes "set (term_vars parsed) \<subseteq> set var_order"
  shows "\<exists>A. build_matrix var_order parsed = Inr A \<and> rect (length parsed) (length var_order) A \<and>
           (distinct var_order \<longrightarrow> (\<forall>k<length parsed.
              (\<Sum>j<length var_order. A ! k ! j * f (var_order ! j))
                = (\<Sum>t\<leftarrow>fst (parsed ! k). sign t * coefficient t * f (variable t))))"
proof -
  let ?P = "\<lambda>e row. length row = length var_order \<and>
           (distinct var_order \<longrightarrow>
            (\<Sum>j<length var_order. row ! j * f (var_order ! j))
              = (\<Sum>t\<leftarrow>fst e. sign t * coefficient t * f (variable t)))"
  have "\<exists>A. mapE (\<lambda>e. build_row var_order (fst e)) parsed = Inr A \<and> list_all2 ?P parsed A"
  proof (rule mapE_all)
    fix e assume e: "e \<in> set parsed"
    have "\<forall>t\<in>set (fst e). variable t \<in> set var_order"
      using assms e by (auto simp: term_vars_def)
    from build_row_props [OF this, of f]
    show "\<exists>row. build_row var_order (fst e) = Inr row \<and> ?P e row" by simp
  qed
  then obtain A where A: "build_matrix var_order parsed = Inr A" "list_all2 ?P parsed A"
    by (auto simp: build_matrix_def)
  then have "rect (length parsed) (length var_order) A"
    by (auto simp: rect_def list_all2_conv_all_nth list_all_length)
  with A show ?thesis
    by (auto simp: list_all2_conv_all_nth)
qed

lemma solve_from_cases:
  assumes "parsed \<noteq> []" "set (term_vars parsed) \<subseteq> set vars"
  shows "\<exists>A R ra rg out.
           build_matrix (sort vars) parsed = Inr A \<and>
           rect (length parsed) (length vars) A \<and>
           gauss_jordan (augment A (map snd parsed)) = Inr R \<and>
           rect (length parsed) (Suc (length vars)) R \<and>
           check_rank (map butlast R) = Inr ra \<and> check_rank R = Inr rg \<and> ra \<le> length vars \<and>
           solve_from vars parsed = Inr out \<and>
           (if ra \<noteq> rg then out = NoSolution
            else if ra < length vars then (\<exists>b f ex. out = InfiniteSolutions b f ex)
            else out = UniqueSolution (zip (sort vars) (map last R)))"
proof -
  let ?rows = "length parsed" and ?n = "length vars" and ?vo = "sort vars"
  have pos: "0 < ?rows" using assms by simp
  have sub: "set (term_vars parsed) \<subseteq> set ?vo" using assms by simp
  from build_matrix_props [OF sub, of "\<lambda>_. 0"]
  obtain A where A: "build_matrix ?vo parsed = Inr A" "rect ?rows ?n A" by auto
  have lB: "length (map snd parsed) = ?rows" by simp
  from augment_rect [OF A(2) lB]
  have G: "rect ?rows (Suc ?n) (augment A (map snd parsed))" by simp
  from gauss_jordan_total [OF G pos]
  obtain R where R: "gauss_jordan (augment A (map snd parsed)) = Inr R" "rect ?rows (Suc ?n) R"
    by blast
  have "\<forall>r\<in>set R. r \<noteq> []"
    using R(2) by (auto simp: rect_def list_all_iff)
  then have ret: "mapE last_item R = Inr (map last R)" by (rule mapE_last_item)
  have C: "rect ?rows ?n (map butlast R)" using R(2) by (rule rect_butlast)
  from check_rank_props [OF C] obtain ra where ra: "check_rank (map butlast R) = Inr ra" "ra \<le> ?n"
    by blast
  from check_rank_props [OF R(2)] obtain rg where rg: "check_rank R = Inr rg" by blast
  have lenR: "length R = ?rows" using R(2) by (simp add: rect_length)
  have row0: "item (map butlast R) 0 = Inr (butlast (R ! 0))" "length (butlast (R ! 0)) = ?n"
    using pos lenR rect_nth [OF R(2) pos] by simp_all
  have lvo: "length ?vo = ?n" by simp
  from generate_infinite_solutions_total [OF R(2) lvo ra(1)]
  obtain b f ex where gen: "generate_infinite_solutions (map butlast R) R ?vo
      = Inr (InfiniteSolutions b f ex)" by blast
  have "solve_from vars parsed = Inr (if ra \<noteq> rg then NoSolution
            else if ra < ?n then InfiniteSolutions b f ex
            else UniqueSolution (zip ?vo (map last R)))"
    using A(1) R(1) ret ra(1) rg row0 gen
    by (simp add: solve_from_def Let_def)
  with A R ra rg show ?thesis by auto
qed

lemma sort_enumeration:
  assumes "set vars = set vars'" "distinct vars" "distinct vars'"
  shows "sort vars = sort (vars' :: string list)"
  using assms by (intro sorted_distinct_set_unique) simp_all

lemma solve_from_sort: "sort vars = sort vars' \<Longrightarrow> solve_from vars parsed = solve_from vars' parsed"
  by (simp add: solve_from_def)

lemma solve_parsed_total:
  assumes "parsed \<noteq> []"
  shows "\<exists>out. solve_parsed parsed = Inr out"
proof -
  have "set (term_vars parsed) \<subseteq> set (remdups (term_vars parsed))" by simp
  from solve_from_cases [OF assms this] show ?thesis
    unfolding solve_parsed_def by blast
qed

lemma mapE_length: "mapE f xs = Inr ys \<Longrightarrow> length ys = length xs"
  by (induction xs arbitrary: ys) (auto split: sum.splits)

subsection \<open>A step of the reducer on a settled pivot position\<close>

lemma foldE_fixed:
  assumes "\<And>x. x \<in> set xs \<Longrightarrow> f x s = Inr s"
  shows "foldE f xs s = Inr s"
  using assms by (induction xs) simp_all

lemma gj_step_settled:
  assumes "rect rows cols m" "i < rows" "i < cols" "settled_at m i"
  shows "gj_step rows cols i m = Inr m"
proof -
  have len: "length m = rows" "length (m ! i) = cols"
    using assms by (simp_all add: rect_length rect_nth)
  have below: "\<And>j. i < j \<Longrightarrow> j < rows \<Longrightarrow> \<bar>m ! j ! i\<bar> \<le> \<bar>m ! i ! i\<bar>"
    using assms(4) len by (simp add: settled_at_def list_all_iff)
  have search: "foldE (gj_select m i) [i + 1..<rows] i = Inr i"
  proof (rule foldE_fixed)
    fix j assume "j \<in> set [i + 1..<rows]"
    then have j: "i < j" "j < rows" by simp_all
    from below [OF j] show "gj_select m i j i = Inr i"
      using gj_select_rect [OF assms(1) assms(3) j(2) assms(2)] by simp
  qed
  show ?thesis
  proof (cases "\<bar>m ! i ! i\<bar> < tol")
    case True
    with search len assms show ?thesis by (simp add: gj_step_def)
  next
    case False
    with assms(4) len have one: "m ! i ! i = 1"
      and others: "\<And>j. j < rows \<Longrightarrow> j \<noteq> i \<Longrightarrow> \<bar>m ! j ! i\<bar> \<le> tol"
      by (auto simp: settled_at_def list_all_iff)
    have scaled: "m[i := map (\<lambda>x. x / 1) (m ! i)] = m" by simp
    have elim: "foldE (gj_eliminate cols i) [0..<rows] m = Inr m"
    proof (rule foldE_fixed)
      fix j assume "j \<in> set [0..<rows]"
      then have j: "j < rows" by simp
      have "\<not> (j \<noteq> i \<and> tol < \<bar>m ! j ! i\<bar>)"
        using others [OF j] by auto
      then show "gj_eliminate cols i j m = Inr m"
        unfolding gj_eliminate_rect [OF assms(1) assms(2) j assms(3)] by (simp only: if_False)
    qed
    show ?thesis
      using search len assms False one elim
      by (simp add: gj_step_def scale_row_rect)
  qed
qed

lemma gauss_jordan_reduced_fixed:
  assumes "rect rows cols m" "0 < rows" "reduced_form m"
  shows "gauss_jordan m = Inr m"
proof -
  have len: "length m = rows" "length (hd m) = cols"
    using assms(1,2) by (cases m; simp add: rect_def)+
  have hd: "item m 0 = Inr (hd m)" using assms(2) len by (cases m) simp_all
  have "foldE (gj_step rows cols) [0..<min rows (cols - 1)] m = Inr m"
  proof (rule foldE_fixed)
    fix i assume "i \<in> set [0..<min rows (cols - 1)]"
    then have i: "i < rows" "i < cols" and s: "settled_at m i"
      using assms(3) len by (auto simp: reduced_form_def list_all_iff)
    from gj_step_settled [OF assms(1) i s] show "gj_step rows cols i m = Inr m" .
  qed
  with hd len show ?thesis by (simp add: gauss_jordan_def)
qed

subsection \<open>The returned dict\<close>

lemma returned_unique_keys:
  "map fst (returned (UniqueSolution (zip vo xs))) = take (length xs) vo"
  by (simp add: map_fst_zip_take comp_def min_def)

lemma returned_unique_nums:
  "list_all (\<lambda>kv. is_num (snd kv)) (returned (UniqueSolution sol))"
  by (simp add: list_all_iff is_num_def)

lemma returned_unique_type:
  "map_of (returned (UniqueSolution sol)) k \<noteq> Some (Str s)"
  by (induction sol) auto

lemma term_vars_nonempty: "term_vars parsed \<noteq> [] \<Longrightarrow> parsed \<noteq> []"
  by (auto simp: term_vars_def)

subsection \<open>Writes of check_rank on the store\<close>

lemma foldE_preserves:
  assumes "foldE f xs s = Inr s'" "P s"
    and "\<And>x s s'. x \<in> set xs \<Longrightarrow> P s \<Longrightarrow> f x s = Inr s' \<Longrightarrow> P s'"
  shows "P s'"
  using assms
proof (induction xs arbitrary: s)
  case Nil
  then show ?case by simp
next
  case (Cons x xs)
  from Cons.prems(1) obtain s1 where s1: "f x s = Inr s1" "foldE f xs s1 = Inr s'"
    by (auto split: sum.splits)
  have "P s1" using Cons.prems(2,3) s1(1) by (meson list.set_intros(1))
  show ?case
  proof (rule Cons.IH [OF s1(2) \<open>P s1\<close>])
    fix y s s' assume "y \<in> set xs" "P s" "f y s = Inr s'"
    then show "P s'" using Cons.prems(3) [of y s s'] by simp
  qed
qed

lemma get_refs_Inr: "get_refs h t = Inr refs \<Longrightarrow> t < length h \<and> h ! t = Mat refs"
  by (auto simp: get_refs_def item_def bindE_eq_Inr split: if_splits obj.splits)

lemma item_Inr: "item xs i = Inr x \<Longrightarrow> i < length xs \<and> xs ! i = x"
  by (auto simp: item_def split: if_splits)

lemma store_entry_private:
  assumes "private_temp h0 t h" "store_entry h t r c v = Inr h'"
  shows "private_temp h0 t h'"
proof -
  from assms(2) obtain refs a row where s: "get_refs h t = Inr refs" "item refs r = Inr a"
    "h' = h[a := Row (row[c := v])]"
    by (auto simp: store_entry_def bindE_eq_Inr split: if_splits)
  from get_refs_Inr [OF s(1)] have t: "h ! t = Mat refs" by simp
  from item_Inr [OF s(2)] have a: "a \<in> set refs" by auto
  from assms(1) t have all: "list_all (\<lambda>a. length h0 \<le> a \<and> a < t) refs"
    by (auto simp: private_temp_def)
  with a have ab: "length h0 \<le> a" "a < t" by (auto simp: list_all_iff)
  show ?thesis
    using assms(1) s(3) t ab all by (auto simp: private_temp_def)
qed

lemma swap_refs_private:
  assumes "private_temp h0 t h" "swap_refs h t i j = Inr h'"
  shows "private_temp h0 t h'"
proof -
  from assms(2) obtain refs a b where s: "get_refs h t = Inr refs" "item refs j = Inr b"
    "item refs i = Inr a" "h' = h[t := Mat ((refs[i := b])[j := a])]"
    by (auto simp: swap_refs_def bindE_eq_Inr)
  from get_refs_Inr [OF s(1)] have t: "h ! t = Mat refs" "t < length h" by simp_all
  from item_Inr [OF s(2)] item_Inr [OF s(3)] have ab: "a \<in> set refs" "b \<in> set refs" by auto
  from assms(1) t have all: "list_all (\<lambda>a. length h0 \<le> a \<and> a < t) refs"
    by (auto simp: private_temp_def)
  have "set ((refs[i := b])[j := a]) \<subseteq> set refs"
    using ab by (meson insert_subset order_trans set_update_subset_insert subset_refl)
  with all have "list_all (\<lambda>a. length h0 \<le> a \<and> a < t) ((refs[i := b])[j := a])"
    by (auto simp: list_all_iff)
  then show ?thesis
    using assms(1) s(4) t by (auto simp: private_temp_def)
qed

lemma inner_loop_private:
  assumes "foldE (\<lambda>c h1. bindE (load h1 t row c) (\<lambda>x. bindE (load h1 t rank c) (\<lambda>y.
                       store_entry h1 t row c (g x y)))) xs h = Inr h'"
    and "private_temp h0 t h"
  shows "private_temp h0 t h'"
proof (rule foldE_preserves [where P = "private_temp h0 t", OF assms])
  fix c s s'
  assume "private_temp h0 t s"
    and "bindE (load s t row c) (\<lambda>x. bindE (load s t rank c) (\<lambda>y.
           store_entry s t row c (g x y))) = Inr s'"
  then show "private_temp h0 t s'"
    by (auto simp: bindE_eq_Inr intro: store_entry_private)
qed

lemma cr_eliminate_st_private:
  assumes "private_temp h0 t h" "cr_eliminate_st t cols col rank row h = Inr h'"
  shows "private_temp h0 t h'"
  using assms
  by (auto simp: cr_eliminate_st_def bindE_eq_Inr Let_def split: if_splits
           intro: inner_loop_private)

lemma elim_loop_private:
  assumes "foldE (cr_eliminate_st t cols col rank) xs h = Inr h'" "private_temp h0 t h"
  shows "private_temp h0 t h'"
  by (rule foldE_preserves [where P = "private_temp h0 t", OF assms])
     (rule cr_eliminate_st_private)

lemma cr_step_st_private:
  assumes "private_temp h0 t (fst s)" "cr_step_st t rows cols col s = Inr s'"
  shows "private_temp h0 t (fst s')"
proof -
  obtain h rank where s: "s = (h, rank)" by (cases s)
  from assms(2) obtain found where
    rest: "(case found of None \<Rightarrow> Inr (h, rank)
          | Some pivot_row \<Rightarrow>
              bindE (if pivot_row \<noteq> rank then swap_refs h t rank pivot_row else Inr h) (\<lambda>h1.
              bindE (foldE (cr_eliminate_st t cols col rank) [0..<rows] h1) (\<lambda>h2.
                Inr (h2, rank + 1)))) = Inr s'"
    unfolding s cr_step_st_def prod.case bindE_eq_Inr by blast
  show ?thesis
  proof (cases found)
    case None
    with rest assms s show ?thesis by auto
  next
    case (Some pr)
    with rest obtain h1 h2 where
      h1: "(if pr \<noteq> rank then swap_refs h t rank pr else Inr h) = Inr h1"
      and h2: "foldE (cr_eliminate_st t cols col rank) [0..<rows] h1 = Inr h2"
      and s': "s' = (h2, rank + 1)"
      by (auto simp: bindE_eq_Inr)
    have p1: "private_temp h0 t h1"
      using h1 assms(1) s by (auto split: if_splits intro: swap_refs_private)
    have "private_temp h0 t h2"
      by (rule elim_loop_private [OF h2 p1])
    with s' show ?thesis by auto
  qed
qed

lemma step_loop_private:
  assumes "foldE (cr_step_st t rows cols) xs s = Inr s'" "private_temp h0 t (fst s)"
  shows "private_temp h0 t (fst s')"
  by (rule foldE_preserves [where P = "\<lambda>s. private_temp h0 t (fst s)", OF assms])
     (rule cr_step_st_private)

lemma copy_rows_private:
  assumes "foldE copy_row refs (h0, []) = Inr (h1, new)"
  shows "take (length h0) h1 = h0 \<and> length h0 \<le> length h1 \<and>
         list_all (\<lambda>a. length h0 \<le> a \<and> a < length h1) new"
proof -
  let ?P = "\<lambda>s. take (length h0) (fst s) = h0 \<and> length h0 \<le> length (fst s) \<and>
         list_all (\<lambda>a. length h0 \<le> a \<and> a < length (fst s)) (snd s)"
  have "?P (h1, new)"
  proof (rule foldE_preserves [OF assms, where P = ?P])
    show "?P (h0, [])" by simp
  next
    fix a s s' assume P: "?P s" and c: "copy_row a s = Inr s'"
    obtain h n where s: "s = (h, n)" by (cases s)
    from c s obtain r where s': "s' = (h @ [Row r], n @ [length h])"
      by (auto simp: copy_row_def bindE_eq_Inr)
    from P s have "list_all (\<lambda>a. length h0 \<le> a \<and> a < length h) n" by simp
    then have "list_all (\<lambda>a. length h0 \<le> a \<and> a < Suc (length h)) n"
      by (auto simp: list_all_iff)
    with P s s' show "?P s'" by simp
  qed
  then show ?thesis by simp
qed

lemma private_temp_prefix: "private_temp h0 t h \<Longrightarrow> take (length h0) h = h0"
  by (simp add: private_temp_def)

lemma copied_temp_private:
  assumes "foldE copy_row refs (h, []) = Inr (hc, new)"
    and "foldE (cr_step_st (length hc) rows cols) xs (hc @ [Mat new], 0) = Inr (h', r)"
  shows "take (length h) h' = h"
proof -
  from copy_rows_private [OF assms(1)]
  have c: "take (length h) hc = h" "length h \<le> length hc"
    "list_all (\<lambda>a. length h \<le> a \<and> a < length hc) new" by simp_all
  have "private_temp h (length hc) (fst (hc @ [Mat new], 0::nat))"
    using c by (simp add: private_temp_def)
  from step_loop_private [OF assms(2) this] show ?thesis
    by (simp add: private_temp_prefix)
qed

subsection \<open>The working matrix of check_rank on the store\<close>

lemma temp_ok_refs:
  assumes "temp_ok rows cols t h"
  shows "\<exists>refs. h ! t = Mat refs \<and> refs_at h t = refs \<and> t < length h \<and>
           length refs = rows \<and> distinct refs \<and>
           (\<forall>k<rows. refs ! k < t \<and> (\<exists>row. h ! (refs ! k) = Row row \<and> length row = cols))"
proof -
  from assms obtain refs where r: "h ! t = Mat refs"
    by (auto simp: temp_ok_def split: obj.splits)
  with assms have p: "t < length h" "length refs = rows" "distinct refs"
    "list_all (\<lambda>a. a < t \<and> (case h ! a of Row r \<Rightarrow> length r = cols | Mat _ \<Rightarrow> False)) refs"
    by (simp_all add: temp_ok_def)
  have "\<forall>k<rows. refs ! k < t \<and> (\<exists>row. h ! (refs ! k) = Row row \<and> length row = cols)"
  proof (intro allI impI)
    fix k assume "k < rows"
    with p(2,4) have "refs ! k < t \<and>
        (case h ! (refs ! k) of Row r \<Rightarrow> length r = cols | Mat _ \<Rightarrow> False)"
      by (simp add: list_all_length)
    then show "refs ! k < t \<and> (\<exists>row. h ! (refs ! k) = Row row \<and> length row = cols)"
      by (cases "h ! (refs ! k)") simp_all
  qed
  with r p show ?thesis by (simp add: refs_at_def)
qed

lemma temp_okI:
  assumes "h ! t = Mat refs" "t < length h" "length refs = rows" "distinct refs"
    "\<And>k. k < rows \<Longrightarrow> refs ! k < t \<and> (\<exists>row. h ! (refs ! k) = Row row \<and> length row = cols)"
  shows "temp_ok rows cols t h"
proof -
  have "list_all (\<lambda>a. a < t \<and> (case h ! a of Row r \<Rightarrow> length r = cols | Mat _ \<Rightarrow> False)) refs"
    unfolding list_all_length
  proof (intro allI impI)
    fix k assume "k < length refs"
    then have "k < rows" using assms(3) by simp
    from assms(5) [OF this]
    show "refs ! k < t \<and> (case h ! (refs ! k) of Row r \<Rightarrow> length r = cols | Mat _ \<Rightarrow> False)"
      by auto
  qed
  with assms(1-4) show ?thesis by (simp add: temp_ok_def)
qed

lemma row_at_Row: "h ! a = Row row \<Longrightarrow> row_at h a = row"
  by (simp add: row_at_def)

lemma temp_ok_rect: "temp_ok rows cols t h \<Longrightarrow> rect rows cols (mat_of h t)"
proof -
  assume ok: "temp_ok rows cols t h"
  from temp_ok_refs [OF ok] obtain refs where r: "refs_at h t = refs" "length refs = rows"
    "\<forall>k<rows. refs ! k < t \<and> (\<exists>row. h ! (refs ! k) = Row row \<and> length row = cols)"
    by blast
  have "\<And>k. k < rows \<Longrightarrow> length (row_at h (refs ! k)) = cols"
    using r(3) by (auto simp: row_at_Row)
  then show ?thesis
    using r(1,2) by (simp add: rect_def mat_of_def list_all_length)
qed

lemma load_ok:
  assumes "temp_ok rows cols t h" "r < rows" "c < cols"
  shows "load h t r c = Inr (mat_of h t ! r ! c)"
proof -
  from temp_ok_refs [OF assms(1)]
  obtain refs where refs: "h ! t = Mat refs" "refs_at h t = refs" "t < length h"
    "length refs = rows"
    "\<forall>k<rows. refs ! k < t \<and> (\<exists>row. h ! (refs ! k) = Row row \<and> length row = cols)"
    by blast
  from refs(5) [rule_format, OF assms(2)] obtain row where row: "refs ! r < t" "h ! (refs ! r) = Row row"
    "length row = cols" by blast
  have g1: "get_refs h t = Inr refs" using refs(1,3) by (simp add: get_refs_def)
  have g2: "item refs r = Inr (refs ! r)" using assms(2) refs(4) by simp
  have g3: "get_row h (refs ! r) = Inr row" using row(1,2) refs(3) by (simp add: get_row_def)
  have g4: "item row c = Inr (row ! c)" using row(3) assms(3) by simp
  have "mat_of h t ! r = row"
    using refs(2,4) assms(2) row(2) by (simp add: mat_of_def row_at_Row)
  then show ?thesis
    unfolding load_def g1 bindE_Inr g2 g3 g4 by simp
qed

lemma store_entry_ok:
  assumes "temp_ok rows cols t h" "r < rows" "c < cols"
  shows "\<exists>h'. store_entry h t r c v = Inr h' \<and> temp_ok rows cols t h' \<and>
           mat_of h' t = (mat_of h t)[r := (mat_of h t ! r)[c := v]]"
proof -
  from temp_ok_refs [OF assms(1)]
  obtain refs where refs: "h ! t = Mat refs" "refs_at h t = refs" "t < length h"
    "length refs = rows" "distinct refs"
    "\<forall>k<rows. refs ! k < t \<and> (\<exists>row. h ! (refs ! k) = Row row \<and> length row = cols)"
    by blast
  from refs(6) [rule_format, OF assms(2)] obtain row where row: "refs ! r < t" "h ! (refs ! r) = Row row"
    "length row = cols" by blast
  let ?a = "refs ! r"
  let ?h' = "h[?a := Row (row[c := v])]"
  have g1: "get_refs h t = Inr refs" using refs(1,3) by (simp add: get_refs_def)
  have g2: "item refs r = Inr ?a" using assms(2) refs(4) by simp
  have g3: "get_row h ?a = Inr row" using row(1,2) refs(3) by (simp add: get_row_def)
  have cl: "c < length row" using row(3) assms(3) by simp
  have se: "store_entry h t r c v = Inr ?h'"
    unfolding store_entry_def g1 bindE_Inr g2 g3 by (simp only: cl if_True)
  have at: "?a \<noteq> t" "?a < length h" using row(1) refs(3) by simp_all
  have ht': "?h' ! t = Mat refs" using at refs(1) by simp
  have rows': "\<And>k. k < rows \<Longrightarrow>
      ?h' ! (refs ! k) = (if k = r then Row (row[c := v]) else h ! (refs ! k))"
  proof -
    fix k assume k: "k < rows"
    show "?h' ! (refs ! k) = (if k = r then Row (row[c := v]) else h ! (refs ! k))"
    proof (cases "k = r")
      case True
      then show ?thesis using at by simp
    next
      case False
      then have "refs ! k \<noteq> ?a"
        using refs(4,5) k assms(2) by (simp add: nth_eq_iff_index_eq)
      then show ?thesis using False by simp
    qed
  qed
  have ok: "temp_ok rows cols t ?h'"
  proof (rule temp_okI [OF ht' _ refs(4) refs(5)])
    show "t < length ?h'" using refs(3) by simp
  next
    fix k assume k: "k < rows"
    from refs(6) [rule_format, OF k] obtain rk where rk: "refs ! k < t" "h ! (refs ! k) = Row rk"
      "length rk = cols" by blast
    show "refs ! k < t \<and> (\<exists>row. ?h' ! (refs ! k) = Row row \<and> length row = cols)"
      using rows' [OF k] rk row(3) by auto
  qed
  have rf': "refs_at ?h' t = refs" using ht' by (simp add: refs_at_def)
  have mr: "mat_of h t ! r = row"
    using refs(2,4) assms(2) row(2) by (simp add: mat_of_def row_at_Row)
  have "mat_of ?h' t = (mat_of h t)[r := row[c := v]]"
  proof (rule nth_equalityI)
    show "length (mat_of ?h' t) = length ((mat_of h t)[r := row[c := v]])"
      by (simp add: mat_of_def rf' refs(2))
  next
    fix k assume "k < length (mat_of ?h' t)"
    then have k: "k < rows" by (simp add: mat_of_def rf' refs(4))
    have "row_at ?h' (refs ! k) = (if k = r then row[c := v] else row_at h (refs ! k))"
      using rows' [OF k] by (simp add: row_at_def)
    then show "mat_of ?h' t ! k = (mat_of h t)[r := row[c := v]] ! k"
      using k refs(2,4) assms(2) by (simp add: mat_of_def rf' nth_list_update)
  qed
  with se ok mr show ?thesis by simp
qed

lemma swap_refs_ok:
  assumes "temp_ok rows cols t h" "i < rows" "j < rows"
  shows "\<exists>h'. swap_refs h t i j = Inr h' \<and> temp_ok rows cols t h' \<and>
           mat_of h' t = swap_rows (mat_of h t) i j"
proof -
  from temp_ok_refs [OF assms(1)]
  obtain refs where refs: "h ! t = Mat refs" "refs_at h t = refs" "t < length h"
    "length refs = rows" "distinct refs"
    "\<forall>k<rows. refs ! k < t \<and> (\<exists>row. h ! (refs ! k) = Row row \<and> length row = cols)"
    by blast
  let ?refs' = "(refs[i := refs ! j])[j := refs ! i]"
  let ?h' = "h[t := Mat ?refs']"
  have g1: "get_refs h t = Inr refs" using refs(1,3) by (simp add: get_refs_def)
  have ij: "item refs j = Inr (refs ! j)" "item refs i = Inr (refs ! i)"
    using assms refs(4) by simp_all
  have sw: "swap_refs h t i j = Inr ?h'"
    unfolding swap_refs_def g1 bindE_Inr ij by simp
  have ht': "?h' ! t = Mat ?refs'" using refs(3) by simp
  have rf': "refs_at ?h' t = ?refs'" using ht' by (simp add: refs_at_def)
  have nth': "\<And>k. k < rows \<Longrightarrow> ?refs' ! k = (if k = j then refs ! i else if k = i then refs ! j else refs ! k)"
    using refs(4) by (simp add: nth_list_update)
  have dist': "distinct ?refs'"
    using assms refs(4,5) by (simp add: distinct_swap)
  have other: "\<And>k. k < rows \<Longrightarrow> ?h' ! (refs ! k) = h ! (refs ! k)"
  proof -
    fix k assume "k < rows"
    from refs(6) [rule_format, OF this] have "refs ! k \<noteq> t" by auto
    then show "?h' ! (refs ! k) = h ! (refs ! k)" by simp
  qed
  have ok: "temp_ok rows cols t ?h'"
  proof (rule temp_okI [OF ht' _ _ dist'])
    show "t < length ?h'" using refs(3) by simp
    show "length ?refs' = rows" using refs(4) by simp
  next
    fix k assume k: "k < rows"
    let ?k' = "if k = j then i else if k = i then j else k"
    have k': "?k' < rows" using k assms by simp
    have e: "?refs' ! k = refs ! ?k'" using nth' [OF k] by simp
    from refs(6) [rule_format, OF k'] other [OF k']
    show "?refs' ! k < t \<and> (\<exists>row. ?h' ! (?refs' ! k) = Row row \<and> length row = cols)"
      unfolding e by simp
  qed
  have "mat_of ?h' t = swap_rows (mat_of h t) i j"
  proof (rule nth_equalityI)
    show "length (mat_of ?h' t) = length (swap_rows (mat_of h t) i j)"
      by (simp add: mat_of_def rf' refs(2))
  next
    fix k assume "k < length (mat_of ?h' t)"
    then have k: "k < rows" by (simp add: mat_of_def rf' refs(4))
    let ?k' = "if k = j then i else if k = i then j else k"
    have k': "?k' < rows" using k assms by simp
    have e: "?refs' ! k = refs ! ?k'" using nth' [OF k] by simp
    have "row_at ?h' (refs ! ?k') = row_at h (refs ! ?k')"
      using other [OF k'] by (simp add: row_at_def)
    then have "mat_of ?h' t ! k = row_at h (refs ! ?k')"
      using k refs(4) e by (simp add: mat_of_def rf')
    also have "\<dots> = swap_rows (mat_of h t) i j ! k"
      using k refs(2,4) assms by (simp add: swap_rows_nth mat_of_def)
    finally show "mat_of ?h' t ! k = swap_rows (mat_of h t) i j ! k" .
  qed
  with sw ok show ?thesis by simp
qed

lemma find_pivot_st_ok:
  assumes "temp_ok rows cols t h" "col < cols" "\<forall>r\<in>set rs. r < rows"
  shows "find_pivot_st h t col rs = find_pivot (mat_of h t) col rs"
  using assms(3)
proof (induction rs)
  case Nil
  show ?case by simp
next
  case (Cons r rs)
  then have r: "r < rows" by simp
  have m: "rect rows cols (mat_of h t)" using assms(1) by (rule temp_ok_rect)
  have e: "entry (mat_of h t) r col = Inr (mat_of h t ! r ! col)"
    using m r assms(2) by (simp add: rect_length rect_nth)
  from Cons load_ok [OF assms(1) r assms(2)] e show ?case by simp
qed

lemma inner_loop_ok:
  assumes "temp_ok rows cols t h" "row < rows" "rank < rows" "row \<noteq> rank"
  shows "\<exists>h'. foldE (\<lambda>c h1. bindE (load h1 t row c) (\<lambda>x. bindE (load h1 t rank c) (\<lambda>y.
                       store_entry h1 t row c (x - f * y)))) [0..<cols] h = Inr h' \<and>
           temp_ok rows cols t h' \<and>
           mat_of h' t = (mat_of h t)[row := map2 (\<lambda>x y. x - f * y) (mat_of h t ! row) (mat_of h t ! rank)]"
proof -
  let ?m = "mat_of h t"
  let ?body = "\<lambda>c h1. bindE (load h1 t row c) (\<lambda>x. bindE (load h1 t rank c) (\<lambda>y.
                       store_entry h1 t row c (x - f * y)))"
  let ?P = "\<lambda>k h1. temp_ok rows cols t h1 \<and>
      (\<exists>r'. mat_of h1 t = ?m[row := r'] \<and> length r' = cols \<and>
         (\<forall>j<cols. r' ! j = (if j < k then ?m ! row ! j - f * ?m ! rank ! j else ?m ! row ! j)))"
  have m: "rect rows cols ?m" using assms(1) by (rule temp_ok_rect)
  have len: "length ?m = rows" "length (?m ! row) = cols" "length (?m ! rank) = cols"
    using m assms by (simp_all add: rect_length rect_nth)
  have "\<exists>h'. foldE ?body [0..<cols] h = Inr h' \<and> ?P cols h'"
  proof (rule foldE_upt_invariant [where P = ?P])
    have "?m = ?m[row := ?m ! row] \<and> length (?m ! row) = cols \<and>
         (\<forall>j<cols. ?m ! row ! j = (if j < 0 then ?m ! row ! j - f * ?m ! rank ! j else ?m ! row ! j))"
      using len by simp
    then have "\<exists>r'. ?m = ?m[row := r'] \<and> length r' = cols \<and>
         (\<forall>j<cols. r' ! j = (if j < 0 then ?m ! row ! j - f * ?m ! rank ! j else ?m ! row ! j))"
      by (rule exI)
    with assms(1) show "?P 0 h" by simp
  next
    fix k s assume k: "k < cols" and P: "?P k s"
    then obtain r' where ok: "temp_ok rows cols t s" and
      r': "mat_of s t = ?m[row := r']" "length r' = cols"
      "\<forall>j<cols. r' ! j = (if j < k then ?m ! row ! j - f * ?m ! rank ! j else ?m ! row ! j)"
      by blast
    have x: "load s t row k = Inr (?m ! row ! k)"
      using load_ok [OF ok assms(2) k] r' len assms(2) k by simp
    have y: "load s t rank k = Inr (?m ! rank ! k)"
      using load_ok [OF ok assms(3) k] r'(1) assms(4) by simp
    let ?v = "?m ! row ! k - f * ?m ! rank ! k"
    from store_entry_ok [OF ok assms(2) k, of ?v]
    obtain s' where s': "store_entry s t row k ?v = Inr s'" "temp_ok rows cols t s'"
      "mat_of s' t = (mat_of s t)[row := (mat_of s t ! row)[k := ?v]]"
      by blast
    have ms': "mat_of s' t = ?m[row := r'[k := ?v]]"
      using s'(3) r'(1) len assms(2) by simp
    have "\<forall>j<cols. (r'[k := ?v]) ! j
            = (if j < Suc k then ?m ! row ! j - f * ?m ! rank ! j else ?m ! row ! j)"
      using r'(2,3) k by (auto simp: nth_list_update less_Suc_eq)
    with ms' r'(2) have "\<exists>r''. mat_of s' t = ?m[row := r''] \<and> length r'' = cols \<and>
         (\<forall>j<cols. r'' ! j = (if j < Suc k then ?m ! row ! j - f * ?m ! rank ! j else ?m ! row ! j))"
      by (intro exI [of _ "r'[k := ?v]"]) simp
    with s'(2) have "?P (Suc k) s'" by simp
    moreover have "?body k s = Inr s'" using x y s'(1) by simp
    ultimately show "\<exists>s'. ?body k s = Inr s' \<and> ?P (Suc k) s'" by blast
  qed simp
  then obtain h' r' where h': "foldE ?body [0..<cols] h = Inr h'" "temp_ok rows cols t h'"
    "mat_of h' t = ?m[row := r']" "length r' = cols"
    "\<forall>j<cols. r' ! j = (if j < cols then ?m ! row ! j - f * ?m ! rank ! j else ?m ! row ! j)"
    by blast
  have "r' = map2 (\<lambda>x y. x - f * y) (?m ! row) (?m ! rank)"
    using h'(4,5) len by (intro nth_equalityI) auto
  with h' show ?thesis by blast
qed

lemma cr_eliminate_st_ok:
  assumes "temp_ok rows cols t h" "rank < rows" "row < rows" "col < cols"
  shows "\<exists>h'. cr_eliminate_st t cols col rank row h = Inr h' \<and> temp_ok rows cols t h' \<and>
           cr_eliminate cols col rank row (mat_of h t) = Inr (mat_of h' t)"
proof -
  let ?m = "mat_of h t"
  have m: "rect rows cols ?m" using assms(1) by (rule temp_ok_rect)
  note pure = cr_eliminate_rect [OF m assms(2) assms(3) assms(4)]
  show ?thesis
  proof (cases "row \<noteq> rank \<and> tol < \<bar>?m ! row ! col\<bar>")
    case False
    have "cr_eliminate_st t cols col rank row h = Inr h"
      using False load_ok [OF assms(1) assms(3) assms(4)]
      by (auto simp: cr_eliminate_st_def)
    moreover have "cr_eliminate cols col rank row ?m = Inr ?m"
      unfolding pure using False by (simp only: if_False)
    ultimately show ?thesis using assms(1) by simp
  next
    case True
    then have ne: "row \<noteq> rank" and big: "tol < \<bar>?m ! row ! col\<bar>" by simp_all
    let ?f = "?m ! row ! col / ?m ! rank ! col"
    from inner_loop_ok [OF assms(1) assms(3) assms(2) ne, where f = ?f]
    obtain h' where h': "foldE (\<lambda>c h1. bindE (load h1 t row c) (\<lambda>x. bindE (load h1 t rank c) (\<lambda>y.
                       store_entry h1 t row c (x - ?f * y)))) [0..<cols] h = Inr h'"
      "temp_ok rows cols t h'"
      "mat_of h' t = ?m[row := map2 (\<lambda>x y. x - ?f * y) (?m ! row) (?m ! rank)]"
      by blast
    have "cr_eliminate_st t cols col rank row h = Inr h'"
      unfolding cr_eliminate_st_def load_ok [OF assms(1) assms(3) assms(4)]
        load_ok [OF assms(1) assms(2) assms(4)] bindE_Inr Let_def
      using ne big h'(1) by simp
    moreover have "cr_eliminate cols col rank row ?m = Inr (mat_of h' t)"
      unfolding pure h'(3) using True by simp
    ultimately show ?thesis using h'(2) by simp
  qed
qed

lemma elim_loop_ok:
  assumes "temp_ok rows cols t h" "rank < rows" "col < cols"
  shows "\<exists>h'. foldE (cr_eliminate_st t cols col rank) [0..<rows] h = Inr h' \<and>
           temp_ok rows cols t h' \<and>
           foldE (cr_eliminate cols col rank) [0..<rows] (mat_of h t) = Inr (mat_of h' t)"
proof -
  have "\<exists>h' m'. foldE (cr_eliminate_st t cols col rank) [0..<rows] h = Inr h' \<and>
          foldE (cr_eliminate cols col rank) [0..<rows] (mat_of h t) = Inr m' \<and>
          (temp_ok rows cols t h' \<and> m' = mat_of h' t)"
  proof (rule foldE_rel [where R = "\<lambda>h m. temp_ok rows cols t h \<and> m = mat_of h t"])
    show "temp_ok rows cols t h \<and> mat_of h t = mat_of h t" using assms(1) by simp
  next
    fix x s m assume x: "x \<in> set [0..<rows]" and R: "temp_ok rows cols t s \<and> m = mat_of s t"
    then have xr: "x < rows" by simp
    from cr_eliminate_st_ok [OF _ assms(2) xr assms(3), of t s] R
    show "\<exists>s' t'. cr_eliminate_st t cols col rank x s = Inr s' \<and>
            cr_eliminate cols col rank x m = Inr t' \<and> temp_ok rows cols t s' \<and> t' = mat_of s' t"
      by auto
  qed
  then show ?thesis by auto
qed

lemma cr_step_st_ok:
  assumes "temp_ok rows cols t h" "col < cols"
  shows "\<exists>h' r'. cr_step_st t rows cols col (h, rank) = Inr (h', r') \<and> temp_ok rows cols t h' \<and>
           cr_step rows cols col (mat_of h t, rank) = Inr (mat_of h' t, r')"
proof -
  let ?m = "mat_of h t"
  have m: "rect rows cols ?m" using assms(1) by (rule temp_ok_rect)
  have rs: "\<forall>r\<in>set [rank..<rows]. r < rows" by simp
  from find_pivot_props [OF m assms(2) rs]
  obtain res where res: "find_pivot ?m col [rank..<rows] = Inr res"
    "case res of None \<Rightarrow> True | Some p \<Rightarrow> p \<in> set [rank..<rows] \<and> tol < \<bar>?m ! p ! col\<bar>"
    by blast
  have resS: "find_pivot_st h t col [rank..<rows] = Inr res"
    using res(1) find_pivot_st_ok [OF assms rs] by simp
  show ?thesis
  proof (cases res)
    case None
    with res resS assms show ?thesis by (simp add: cr_step_def cr_step_st_def)
  next
    case (Some p)
    with res have p: "rank \<le> p" "p < rows" by simp_all
    then have rk: "rank < rows" by simp
    have "\<exists>h1. (if p \<noteq> rank then swap_refs h t rank p else Inr h) = Inr h1 \<and>
            temp_ok rows cols t h1 \<and>
            mat_of h1 t = (if p \<noteq> rank then swap_rows ?m rank p else ?m)"
      using swap_refs_ok [OF assms(1) rk p(2)] assms(1) by auto
    then obtain h1 where h1: "(if p \<noteq> rank then swap_refs h t rank p else Inr h) = Inr h1"
      "temp_ok rows cols t h1" "mat_of h1 t = (if p \<noteq> rank then swap_rows ?m rank p else ?m)"
      by blast
    from elim_loop_ok [OF h1(2) rk assms(2)]
    obtain h2 where h2: "foldE (cr_eliminate_st t cols col rank) [0..<rows] h1 = Inr h2"
      "temp_ok rows cols t h2"
      "foldE (cr_eliminate cols col rank) [0..<rows] (mat_of h1 t) = Inr (mat_of h2 t)"
      by blast
    have "cr_step_st t rows cols col (h, rank) = Inr (h2, rank + 1)"
      unfolding cr_step_st_def prod.case resS bindE_Inr Some option.case h1(1) h2(1) by simp
    moreover have "cr_step rows cols col (?m, rank) = Inr (mat_of h2 t, rank + 1)"
      unfolding cr_step_def prod.case res(1) bindE_Inr Some option.case Let_def
        h1(3) [symmetric] h2(3) by simp
    ultimately show ?thesis using h2(2) by simp
  qed
qed

lemma step_loop_ok:
  assumes "temp_ok rows cols t h" "\<forall>c\<in>set cs. c < cols"
  shows "\<exists>h' r. foldE (cr_step_st t rows cols) cs (h, 0) = Inr (h', r) \<and>
           foldE (cr_step rows cols) cs (mat_of h t, 0) = Inr (mat_of h' t, r)"
proof -
  let ?R = "\<lambda>(s :: store \<times> nat) (m :: matrix \<times> nat).
              temp_ok rows cols t (fst s) \<and> m = (mat_of (fst s) t, snd s)"
  have "\<exists>s' m'. foldE (cr_step_st t rows cols) cs (h, 0) = Inr s' \<and>
          foldE (cr_step rows cols) cs (mat_of h t, 0) = Inr m' \<and> ?R s' m'"
  proof (rule foldE_rel [where R = ?R])
    show "?R (h, 0) (mat_of h t, 0)" using assms(1) by simp
  next
    fix x s m assume x: "x \<in> set cs" and R: "?R s m"
    obtain h0 r0 where s0: "s = (h0, r0)" by (cases s)
    from x assms(2) have xc: "x < cols" by simp
    from R s0 have ok: "temp_ok rows cols t h0" and m: "m = (mat_of h0 t, r0)" by simp_all
    from cr_step_st_ok [OF ok xc, of r0] s0 m
    show "\<exists>s' m'. cr_step_st t rows cols x s = Inr s' \<and> cr_step rows cols x m = Inr m' \<and> ?R s' m'"
      by auto
  qed
  then show ?thesis by auto
qed

lemma copy_rows_result:
  assumes "\<forall>k<length refs. refs ! k < length h0 \<and> h0 ! (refs ! k) = Row (m ! k)"
    and "length m = length refs"
  shows "foldE copy_row refs (h0 @ ext, new0) =
           Inr (h0 @ ext @ map Row m,
                new0 @ [length (h0 @ ext)..<length (h0 @ ext) + length refs])"
  using assms
proof (induction refs arbitrary: m ext new0)
  case Nil
  then show ?case by simp
next
  case (Cons a refs)
  from Cons.prems(2) obtain r m' where m: "m = r # m'" by (cases m) auto
  from Cons.prems(1) [rule_format, of 0] m have a: "a < length h0" "h0 ! a = Row r" by simp_all
  have rest: "\<forall>k<length refs. refs ! k < length h0 \<and> h0 ! (refs ! k) = Row (m' ! k)"
  proof (intro allI impI)
    fix k assume "k < length refs"
    then have "Suc k < length (a # refs)" by simp
    from Cons.prems(1) [rule_format, OF this] m
    show "refs ! k < length h0 \<and> h0 ! (refs ! k) = Row (m' ! k)" by simp
  qed
  have lm: "length m' = length refs" using Cons.prems(2) m by simp
  have g: "get_row (h0 @ ext) a = Inr r"
    using a by (simp add: get_row_def nth_append)
  have step: "copy_row a (h0 @ ext, new0) = Inr (h0 @ (ext @ [Row r]), new0 @ [length (h0 @ ext)])"
    unfolding copy_row_def prod.case g bindE_Inr by simp
  have up: "[length (h0 @ ext)..<length (h0 @ ext) + length (a # refs)]
          = length (h0 @ ext) # [length (h0 @ (ext @ [Row r]))..<length (h0 @ (ext @ [Row r])) + length refs]"
    using upt_conv_Cons [of "length (h0 @ ext)" "length (h0 @ ext) + length (a # refs)"]
    by (simp del: upt_Suc)
  show ?case
    unfolding foldE.simps step sum.case Cons.IH [OF rest lm] up m by simp
qed

lemma matrix_at_refs:
  assumes "matrix_at h a m"
  shows "\<exists>refs. h ! a = Mat refs \<and> a < length h \<and> length refs = length m \<and>
           (\<forall>k<length refs. refs ! k < length h \<and> h ! (refs ! k) = Row (m ! k))"
proof -
  from assms obtain refs where r: "h ! a = Mat refs"
    by (auto simp: matrix_at_def split: obj.splits)
  with assms have p: "a < length h" "length refs = length m"
    "list_all (\<lambda>p. fst p < length h \<and> h ! (fst p) = Row (snd p)) (zip refs m)"
    by (simp_all add: matrix_at_def)
  have "\<forall>k<length refs. refs ! k < length h \<and> h ! (refs ! k) = Row (m ! k)"
    using p(2,3) by (auto simp: list_all_length)
  with r p show ?thesis by simp
qed

lemma check_rank_st_refines:
  assumes "matrix_at h a m" "rectangular m"
  shows "\<exists>h' r. check_rank_st h a = Inr (h', r) \<and> check_rank m = Inr r"
proof -
  from matrix_at_refs [OF assms(1)]
  obtain refs where refs: "h ! a = Mat refs" "a < length h" "length refs = length m"
    "\<forall>k<length refs. refs ! k < length h \<and> h ! (refs ! k) = Row (m ! k)"
    by blast
  have g: "get_refs h a = Inr refs" using refs(1,2) by (simp add: get_refs_def)
  show ?thesis
  proof (cases "m = []")
    case True
    then have "refs = []" using refs(3) by simp
    then have "check_rank_st h a = Inr (h, 0)"
      unfolding check_rank_st_def g bindE_Inr by simp
    with True show ?thesis by (simp add: check_rank_def)
  next
    case False
    then have ne: "refs \<noteq> []" and pos: "0 < length refs" "0 < length m"
      using refs(3) by auto
    from refs(4) [rule_format, OF pos(1)]
    have r0: "refs ! 0 < length h" "h ! (refs ! 0) = Row (m ! 0)" by simp_all
    have hd: "m ! 0 = hd m" using False by (simp add: hd_conv_nth)
    have g0: "bindE (item refs 0) (get_row h) = Inr (hd m)"
      using pos r0 hd by (simp add: get_row_def)
    show ?thesis
    proof (cases "hd m = []")
      case True
      have "check_rank_st h a = Inr (h, 0)"
        unfolding check_rank_st_def g bindE_Inr g0 using ne True by simp
      with True show ?thesis by (simp add: check_rank_def)
    next
      case hdne: False
      let ?rows = "length m" and ?cols = "length (hd m)"
      let ?hc = "h @ map Row m"
      let ?new = "[length h..<length h + length m]"
      let ?t = "length ?hc"
      let ?h1 = "?hc @ [Mat ?new]"
      have rectm: "rect ?rows ?cols m" using assms(2) by (rule rectangular_rect)
      have copy: "foldE copy_row refs (h, []) = Inr (?hc, ?new)"
        using copy_rows_result [OF refs(4) refs(3) [symmetric], of "[]" "[]"] refs(3) by simp
      have newk: "\<And>k. k < ?rows \<Longrightarrow> ?new ! k = length h + k"
        by simp
      have h1k: "\<And>k. k < ?rows \<Longrightarrow> ?h1 ! (length h + k) = Row (m ! k)"
        by (simp add: nth_append)
      have ok: "temp_ok ?rows ?cols ?t ?h1"
      proof (rule temp_okI [where refs = ?new])
        show "?h1 ! ?t = Mat ?new" by (simp add: nth_append)
        show "?t < length ?h1" by simp
        show "length ?new = ?rows" by simp
        show "distinct ?new" by simp
      next
        fix k assume k: "k < ?rows"
        have "length (m ! k) = ?cols" using rectm k by (simp add: rect_nth)
        then show "?new ! k < ?t \<and> (\<exists>row. ?h1 ! (?new ! k) = Row row \<and> length row = ?cols)"
          using newk [OF k] h1k [OF k] k by simp
      qed
      have rf: "refs_at (h @ map Row m @ [Mat ?new]) (length h + length m) = ?new"
        by (simp add: refs_at_def nth_append)
      have mo: "mat_of ?h1 ?t = m"
      proof (rule nth_equalityI)
        show "length (mat_of ?h1 ?t) = length m" by (simp add: mat_of_def rf)
      next
        fix k assume "k < length (mat_of ?h1 ?t)"
        then have k: "k < ?rows" by (simp add: mat_of_def rf)
        have "row_at ?h1 (length h + k) = m ! k"
          using h1k [OF k] by (rule row_at_Row)
        then show "mat_of ?h1 ?t ! k = m ! k"
          using k by (simp add: mat_of_def rf)
      qed
      have t0: "bindE (item ?new 0) (get_row ?h1) = Inr (hd m)"
        using pos h1k [of 0] hd by (simp add: get_row_def)
      have cs: "\<forall>c\<in>set [0..<?cols]. c < ?cols" by simp
      from step_loop_ok [OF ok cs]
      obtain h' r where loop: "foldE (cr_step_st ?t ?rows ?cols) [0..<?cols] (?h1, 0) = Inr (h', r)"
        "foldE (cr_step ?rows ?cols) [0..<?cols] (mat_of ?h1 ?t, 0) = Inr (mat_of h' ?t, r)"
        by blast
      have lnew: "length ?new = ?rows" by simp
      have "check_rank_st h a = Inr (h', r)"
        unfolding check_rank_st_def g bindE_Inr g0 copy Let_def fst_conv snd_conv t0 lnew
        using ne hdne loop(1) by simp
      moreover have "check_rank m = Inr r"
        using False hdne loop(2) mo by (simp add: check_rank_def)
      ultimately show ?thesis by blast
    qed
  qed
qed

section \<open>The claims of the specification\<close>

subsection \<open>Example solutions of an under-determined system\<close>

text \<open>
  C1. The claim is that every example solution of an InfiniteSolutions result satisfies
  every original equation. For the system \<open>0x + y + z = 2\<close>, \<open>0x + y + 2z = 3\<close> the reducer
  passes over row 0 (column 0 has no pivot) and leaves \<open>[[0, 0, -1, -1], [0, 1, 2, 3]]\<close>;
  the back-substitution then starts at the last row, whose pivot variable \<open>y\<close> depends on
  the still unknown basic variable \<open>z\<close>, and drops that term. Every example has \<open>y = 3\<close> and
  \<open>z = 1\<close>, and the first equation evaluates to 4 instead of 2.
\<close>

theorem example_solutions_violate_equation:
  "solve_equations_manual float_literal [''0x + y + z = 2'', ''0x + y + 2z = 3''] =
     Inr (InfiniteSolutions [''z'', ''y''] [''x'']
            [[(''x'', 0), (''y'', 3), (''z'', 1)], [(''x'', 1), (''y'', 3), (''z'', 1)],
             [(''x'', - 1), (''y'', 3), (''z'', 1)], [(''x'', 2), (''y'', 3), (''z'', 1)],
             [(''x'', - 2), (''y'', 3), (''z'', 1)]]) \<and>
   parse_question float_literal ''0x + y + z = 2'' =
     Inr ([\<lparr>coefficient = 0, variable = ''x'', operator = ADD\<rparr>,
           \<lparr>coefficient = 1, variable = ''y'', operator = ADD\<rparr>,
           \<lparr>coefficient = 1, variable = ''z'', operator = ADD\<rparr>], 2) \<and>
   substitute [(''x'', 0), (''y'', 3), (''z'', 1)]
     [\<lparr>coefficient = 0, variable = ''x'', operator = ADD\<rparr>,
      \<lparr>coefficient = 1, variable = ''y'', operator = ADD\<rparr>,
      \<lparr>coefficient = 1, variable = ''z'', operator = ADD\<rparr>] = 4"
  by code_simp

subsection \<open>Substituting a unique solution\<close>

lemma residue_system_outcome:
  "solve_equations_manual float_literal [''x = 1000000'', ''0.00000000005x + y = 1''] =
     Inr (UniqueSolution [(''x'', 1000000), (''y'', 1)])"
  by code_simp

lemma residue_system_parsed:
  "parse_question float_literal ''0.00000000005x + y = 1'' =
     Inr ([\<lparr>coefficient = 5 / 10 ^ 11, variable = ''x'', operator = ADD\<rparr>,
           \<lparr>coefficient = 1, variable = ''y'', operator = ADD\<rparr>], 1)"
  by code_simp

lemma residue_system_substituted:
  "substitute [(''x'', 1000000), (''y'', 1)]
     [\<lparr>coefficient = 5 / 10 ^ 11, variable = ''x'', operator = ADD\<rparr>,
      \<lparr>coefficient = 1, variable = ''y'', operator = ADD\<rparr>] = 20001 / 20000"
  by code_simp

text \<open>
  C2. The claim bounds by \<open>1e-9\<close> the difference between the two sides of every original
  equation at a unique solution. The code computes the solution and both sides in double
  arithmetic and the bound is a bound on rounding errors; matrix entries are exact
  rationals here, so the claim is not stated as a theorem. Two inputs show what an exact
  model can and cannot say. For \<open>49x = 1000000000000000000\<close> the rationals give
  \<open>49 * (1000000000000000000 / 49)\<close>, which is the right-hand side, where the doubles give
  a product that misses it by 128. For \<open>x = 1000000\<close>, \<open>0.00000000005x + y = 1\<close> the
  difference is no rounding error and the model has it: the elimination leaves an entry
  alone unless its magnitude exceeds the tolerance, the coefficient of \<open>x\<close> in the second
  equation stays, the result is \<open>x = 1000000\<close>, \<open>y = 1\<close>, and the second equation evaluates
  to 1.00005.
\<close>

lemma unique_solution_misses_equation:
  "solve_equations_manual float_literal [''x = 1000000'', ''0.00000000005x + y = 1''] =
     Inr (UniqueSolution [(''x'', 1000000), (''y'', 1)]) \<and>
   parse_question float_literal ''0.00000000005x + y = 1'' =
     Inr ([\<lparr>coefficient = 5 / 10 ^ 11, variable = ''x'', operator = ADD\<rparr>,
           \<lparr>coefficient = 1, variable = ''y'', operator = ADD\<rparr>], 1) \<and>
   \<bar>substitute [(''x'', 1000000), (''y'', 1)]
      [\<lparr>coefficient = 5 / 10 ^ 11, variable = ''x'', operator = ADD\<rparr>,
       \<lparr>coefficient = 1, variable = ''y'', operator = ADD\<rparr>] - 1\<bar> > 1 / 10 ^ 9"
proof -
  have "\<bar>(20001 / 20000 :: rat) - 1\<bar> > 1 / 10 ^ 9" by simp
  with residue_system_outcome residue_system_parsed residue_system_substituted
  show ?thesis by simp
qed

lemma exact_model_has_no_rounding:
  "solve_equations_manual float_literal [''49x = 1000000000000000000''] =
     Inr (UniqueSolution [(''x'', 1000000000000000000 / 49)]) \<and>
   substitute [(''x'', 1000000000000000000 / 49)]
      [\<lparr>coefficient = 49, variable = ''x'', operator = ADD\<rparr>] = 1000000000000000000"
  by code_simp

subsection \<open>Malformed equations\<close>

text \<open>
  C3. The claim is that solving fails with a MalformedEquationError when an equation
  yields zero terms. The code defines no such error and makes no such test: the equation
  \<open>" = 5"\<close> parses to an empty term list with right-hand side 5, becomes an all-zero row
  of a matrix without coefficient columns, and the system is classified as NoSolution.
\<close>

theorem zero_terms_not_rejected:
  "parse_question float_literal '' = 5'' = Inr ([], 5) \<and>
   solve_equations_manual float_literal ['' = 5''] = Inr NoSolution"
  by code_simp

text \<open>
  C3, as the code has it: on every list of equation strings that parse_question accepts,
  whether or not some equation has zero terms, the solver raises nothing and returns an
  outcome, unless the list is empty: then gauss_jordan raises IndexError.
\<close>

theorem solver_returns_on_parsed_input:
  assumes "mapE (parse_question flt) eq = Inr parsed"
  shows "if eq = [] then solve_equations_manual flt eq = Inl IndexError
         else (\<exists>out. solve_equations_manual flt eq = Inr out)"
proof (cases "eq = []")
  case True
  with assms have "parsed = []" by simp
  then have "solve_parsed parsed = Inl IndexError"
    by (simp add: solve_parsed_def solve_from_def term_vars_def build_matrix_def augment_def
        gauss_jordan_def)
  with assms True show ?thesis by (simp add: solve_equations_manual_def)
next
  case False
  with assms have "parsed \<noteq> []"
    using mapE_length [OF assms] by auto
  from solve_parsed_total [OF this] assms False show ?thesis
    by (simp add: solve_equations_manual_def)
qed

theorem solver_returns_on_parsed_input_witness:
  "mapE (parse_question float_literal) ['' = 0'', ''x + y = 2''] =
     Inr [([], 0), ([\<lparr>coefficient = 1, variable = ''x'', operator = ADD\<rparr>,
                    \<lparr>coefficient = 1, variable = ''y'', operator = ADD\<rparr>], 2)] \<and>
   (\<exists>out. solve_equations_manual float_literal ['' = 0'', ''x + y = 2''] = Inr out)"
proof -
  have h1: "mapE (parse_question float_literal) ['' = 0'', ''x + y = 2''] =
     Inr [([], 0), ([\<lparr>coefficient = 1, variable = ''x'', operator = ADD\<rparr>,
                    \<lparr>coefficient = 1, variable = ''y'', operator = ADD\<rparr>], 2)]"
    by code_simp
  from solver_returns_on_parsed_input [OF h1] h1 show ?thesis by simp
qed

subsection \<open>The reducer does not reach reduced row-echelon form\<close>

text \<open>
  C4. The claim is that after gauss_jordan the leading entry of every nonzero row is 1.
  The loop uses one index \<open>i\<close> for the pivot row and the pivot column: when column \<open>i\<close>
  has no pivot among the rows from \<open>i\<close> on, the row \<open>i\<close> is passed over for good. On the
  augmented matrix of the single equation \<open>0x + 2y = 2\<close> the only step finds no pivot in
  column 0 and the function returns the matrix as it was: the leading entry of its row
  is 2, not 1.
\<close>

theorem gauss_jordan_leading_entry_not_one:
  "gauss_jordan [[0, 2, 2]] = Inr [[0, 2, 2]] \<and> leading_entry [0, 2, 2] = Some 2"
  by code_simp

subsection \<open>Classification\<close>

lemma scaled_system_outcome:
  "solve_equations_manual float_literal [''x = 0.00000000005'', ''1000000x = 0''] =
     Inr (UniqueSolution [(''x'', 0)])"
  by code_simp

lemma scaled_system_parsed:
  "mapE (parse_question float_literal) [''x = 0.00000000005'', ''1000000x = 0''] =
     Inr [([\<lparr>coefficient = 1, variable = ''x'', operator = ADD\<rparr>], 5 / 10 ^ 11),
          ([\<lparr>coefficient = 1000000, variable = ''x'', operator = ADD\<rparr>], 0)]"
  by code_simp

lemma scaled_system_matrix:
  "build_matrix [''x'']
     [([\<lparr>coefficient = 1, variable = ''x'', operator = ADD\<rparr>], 5 / 10 ^ 11),
      ([\<lparr>coefficient = 1000000, variable = ''x'', operator = ADD\<rparr>], 0)]
     = Inr [[1], [1000000]]"
  by code_simp

lemma scaled_system_ranks:
  "check_rank [[1], [1000000]] = Inr 1"
  "check_rank (augment [[1], [1000000]] [5 / 10 ^ 11, 0]) = Inr 2"
  by code_simp+

text \<open>
  C5. The claim is that the outcome is decided by the ranks check_rank computes on the
  original matrices \<open>A\<close> and \<open>[A|B]\<close>. The code computes both ranks after the reduction, on
  the reduced matrix and on the reduced matrix without its last column, and with the
  tolerance the two need not agree. For the system \<open>x = 0.00000000005\<close>, \<open>1000000x = 0\<close>
  check_rank on the original \<open>[A|B]\<close> takes the first row as pivot and leaves \<open>-5e-5\<close> in
  the second row: rank 2 against rank 1 for \<open>A\<close>, so the claim says NoSolution. The
  reducer takes the larger pivot of the second row and leaves \<open>5e-11\<close>, which is within
  the tolerance: both ranks of the reduced matrix are 1, and the code returns the
  unique solution \<open>x = 0\<close>.
\<close>

theorem original_ranks_do_not_decide:
  "solve_equations_manual float_literal [''x = 0.00000000005'', ''1000000x = 0''] =
     Inr (UniqueSolution [(''x'', 0)]) \<and>
   mapE (parse_question float_literal) [''x = 0.00000000005'', ''1000000x = 0''] =
     Inr [([\<lparr>coefficient = 1, variable = ''x'', operator = ADD\<rparr>], 5 / 10 ^ 11),
          ([\<lparr>coefficient = 1000000, variable = ''x'', operator = ADD\<rparr>], 0)] \<and>
   build_matrix [''x'']
     [([\<lparr>coefficient = 1, variable = ''x'', operator = ADD\<rparr>], 5 / 10 ^ 11),
      ([\<lparr>coefficient = 1000000, variable = ''x'', operator = ADD\<rparr>], 0)]
     = Inr [[1], [1000000]] \<and>
   check_rank [[1], [1000000]] = Inr 1 \<and>
   check_rank (augment [[1], [1000000]] [5 / 10 ^ 11, 0]) = Inr 2"
  using scaled_system_outcome scaled_system_parsed scaled_system_matrix scaled_system_ranks
  by (intro conjI)

lemma zero_variable_systems:
  "solve_equations_manual float_literal ['' = 0''] = Inr (UniqueSolution []) \<and>
   solve_equations_manual float_literal ['' = 5''] = Inr NoSolution \<and>
   returned (UniqueSolution []) = returned NoSolution"
  by code_simp

lemma solved_system_parsed:
  "mapE (parse_question float_literal) [''x = 1'', ''y = 2'', ''0x = 3''] =
     Inr [([\<lparr>coefficient = 1, variable = ''x'', operator = ADD\<rparr>], 1),
          ([\<lparr>coefficient = 1, variable = ''y'', operator = ADD\<rparr>], 2),
          ([\<lparr>coefficient = 0, variable = ''x'', operator = ADD\<rparr>], 3)]"
  by code_simp

lemma solved_system_matrix:
  "build_matrix
     (var_order_of [([\<lparr>coefficient = 1, variable = ''x'', operator = ADD\<rparr>], 1),
          ([\<lparr>coefficient = 1, variable = ''y'', operator = ADD\<rparr>], 2),
          ([\<lparr>coefficient = 0, variable = ''x'', operator = ADD\<rparr>], 3)])
     [([\<lparr>coefficient = 1, variable = ''x'', operator = ADD\<rparr>], 1),
          ([\<lparr>coefficient = 1, variable = ''y'', operator = ADD\<rparr>], 2),
          ([\<lparr>coefficient = 0, variable = ''x'', operator = ADD\<rparr>], 3)]
     = Inr [[1, 0], [0, 1], [0, 0]]"
  by code_simp

lemma solved_system_reduced:
  "reduced_form (augment [[1, 0], [0, 1], [0, 0]] [1, 2, 3])"
  by code_simp

lemma solved_system_ranks:
  "check_rank [[1, 0], [0, 1], [0, 0]] = Inr 2"
  "check_rank (augment [[1, 0], [0, 1], [0, 0]] [1, 2, 3]) = Inr 3"
  by code_simp+

text \<open>
  C5, as the code has it: on every list of equation strings that parse and have at least
  one variable, the solver returns one of three dicts, decided by the ranks \<open>ra\<close> and \<open>rg\<close>
  that check_rank computes after the reduction, on the reduced matrix \<open>R\<close> without its last
  column and on \<open>R\<close>: the empty dict if and only if \<open>ra \<noteq> rg\<close>; a dict that gives every
  variable a number if and only if \<open>ra = rg\<close> is the number of variables; a dict with
  \<^verbatim>\<open>"type": "infinite"\<close> if and only if \<open>ra = rg\<close> is less. The two ranks are tied to the
  original system in three ways. \<open>R\<close> comes from the original \<open>[A|B]\<close> by row swaps,
  divisions of a row by a nonzero pivot and subtractions of a multiple of one row from
  another, so with exact entries both have the same solutions. Always \<open>ra \<le> rg\<close>, and
  \<open>ra\<close> is at most the number of variables, so the three cases are all there are. And
  when \<open>[A|B]\<close> is in reduced form already, the reducer leaves it as it is, and \<open>ra\<close> and
  \<open>rg\<close> are the ranks check_rank computes on the original \<open>A\<close> and \<open>[A|B]\<close>. Systems without
  a variable are left out: for them the code returns \<^verbatim>\<open>{}\<close> from the first and from the
  last branch, as \<open>" = 5"\<close> and \<open>" = 0"\<close> show.
\<close>

theorem classification_by_reduced_ranks:
  assumes "mapE (parse_question flt) eq = Inr parsed" "term_vars parsed \<noteq> []"
  shows "\<exists>A R ra rg out.
           build_matrix (var_order_of parsed) parsed = Inr A \<and>
           gauss_jordan (augment A (map snd parsed)) = Inr R \<and>
           (\<forall>v. sols (length (var_order_of parsed)) R v =
                sols (length (var_order_of parsed)) (augment A (map snd parsed)) v) \<and>
           check_rank (map butlast R) = Inr ra \<and> check_rank R = Inr rg \<and>
           ra \<le> rg \<and> ra \<le> length (var_order_of parsed) \<and>
           solve_equations_manual flt eq = Inr out \<and>
           ((returned out = []) = (ra \<noteq> rg)) \<and>
           ((map fst (returned out) = var_order_of parsed \<and>
             list_all (\<lambda>kv. is_num (snd kv)) (returned out)) =
            (ra = rg \<and> ra = length (var_order_of parsed))) \<and>
           ((map_of (returned out) ''type'' = Some (Str ''infinite'')) =
            (ra = rg \<and> ra < length (var_order_of parsed))) \<and>
           (reduced_form (augment A (map snd parsed)) \<longrightarrow>
              check_rank A = Inr ra \<and> check_rank (augment A (map snd parsed)) = Inr rg)"
proof -
  let ?vars = "remdups (term_vars parsed)"
  let ?vo = "var_order_of parsed"
  let ?n = "length ?vo" and ?rows = "length parsed"
  let ?B = "map snd parsed"
  have ne: "parsed \<noteq> []" using assms(2) by (rule term_vars_nonempty)
  then have pos: "0 < ?rows" by simp
  have sub: "set (term_vars parsed) \<subseteq> set ?vars" by simp
  have vo: "?vo = sort ?vars" by (simp add: var_order_of_def)
  have n: "?n = length ?vars" by (simp add: var_order_of_def)
  have vne: "?vars \<noteq> []" using assms(2) by simp
  then have sne: "sort ?vars \<noteq> []" by (metis length_sort length_0_conv)
  have npos: "0 < ?n" using vne by (simp add: n)
  from solve_from_cases [OF ne sub]
  obtain A R ra rg out where c:
    "build_matrix (sort ?vars) parsed = Inr A"
    "rect ?rows (length ?vars) A"
    "gauss_jordan (augment A ?B) = Inr R"
    "rect ?rows (Suc (length ?vars)) R"
    "check_rank (map butlast R) = Inr ra" "check_rank R = Inr rg"
    "ra \<le> length ?vars"
    "solve_from ?vars parsed = Inr out"
    "if ra \<noteq> rg then out = NoSolution
     else if ra < length ?vars then (\<exists>b f ex. out = InfiniteSolutions b f ex)
     else out = UniqueSolution (zip (sort ?vars) (map last R))"
    by blast
  have lB: "length ?B = ?rows" by simp
  have G: "rect ?rows (Suc ?n) (augment A ?B)" "map butlast (augment A ?B) = A"
    using augment_rect [OF c(2) lB] by (simp_all add: n)
  have same: "\<forall>v. sols ?n R v = sols ?n (augment A ?B) v"
    using gauss_jordan_props [OF G(1) pos, of ?n] c(3) by auto
  have le: "ra \<le> rg"
    using check_rank_butlast_le [OF c(4)] c(5,6) by auto
  have rows: "ra \<le> ?rows"
    using check_rank_props [OF rect_butlast [OF c(4)]] c(5) by auto
  have out: "solve_equations_manual flt eq = Inr out"
    using assms(1) c(8) by (simp add: solve_equations_manual_def solve_parsed_def)
  have lenR: "length R = ?rows" using c(4) by (simp add: rect_length)
  have e1: "(returned out = []) = (ra \<noteq> rg)"
  proof (cases "ra \<noteq> rg")
    case True
    with c(9) show ?thesis by simp
  next
    case eq: False
    show ?thesis
    proof (cases "ra < length ?vars")
      case True
      with eq c(9) show ?thesis by auto
    next
      case False
      with eq c(9) have "out = UniqueSolution (zip (sort ?vars) (map last R))" by simp
      moreover have "R \<noteq> []" using pos lenR by auto
      moreover note sne
      ultimately show ?thesis using eq by (cases "sort ?vars"; cases R) simp_all
    qed
  qed
  have e2: "(map fst (returned out) = ?vo \<and> list_all (\<lambda>kv. is_num (snd kv)) (returned out)) =
            (ra = rg \<and> ra = ?n)"
  proof (cases "ra \<noteq> rg")
    case True
    with c(9) have "returned out = []" by simp
    moreover have "?vo \<noteq> []" using sne by (simp add: vo)
    ultimately show ?thesis using True by auto
  next
    case eq: False
    show ?thesis
    proof (cases "ra < length ?vars")
      case True
      with eq c(9) obtain b f ex where "out = InfiniteSolutions b f ex" by auto
      then show ?thesis using True n by (simp add: is_num_def)
    next
      case False
      with eq c(9) have o: "out = UniqueSolution (zip ?vo (map last R))" by (simp add: vo)
      from False c(7) have ran: "ra = ?n" by (simp add: n)
      with rows lenR have "?n \<le> length (map last R)" by simp
      then have "map fst (returned out) = ?vo"
        unfolding o returned_unique_keys by simp
      with eq ran show ?thesis unfolding o using returned_unique_nums by blast
    qed
  qed
  have e3: "(map_of (returned out) ''type'' = Some (Str ''infinite'')) = (ra = rg \<and> ra < ?n)"
  proof (cases "ra \<noteq> rg")
    case True
    with c(9) show ?thesis by simp
  next
    case eq: False
    show ?thesis
    proof (cases "ra < length ?vars")
      case True
      with eq c(9) obtain b f ex where "out = InfiniteSolutions b f ex" by auto
      then show ?thesis using True eq n by simp
    next
      case False
      with eq c(9) have o: "out = UniqueSolution (zip ?vo (map last R))" by (simp add: vo)
      show ?thesis unfolding o using False n returned_unique_type by simp
    qed
  qed
  have e4: "reduced_form (augment A ?B) \<longrightarrow>
              check_rank A = Inr ra \<and> check_rank (augment A ?B) = Inr rg"
  proof
    assume "reduced_form (augment A ?B)"
    from gauss_jordan_reduced_fixed [OF G(1) pos this] c(3)
    have "R = augment A ?B" by simp
    with c(5,6) G(2) show "check_rank A = Inr ra \<and> check_rank (augment A ?B) = Inr rg" by simp
  qed
  have b: "build_matrix ?vo parsed = Inr A" using c(1) by (simp add: vo)
  have len: "ra \<le> ?n" using c(7) by (simp add: n)
  from b c(3) same c(5,6) le len out e1 e2 e3 e4 show ?thesis by blast
qed

theorem classification_by_reduced_ranks_witness:
  "mapE (parse_question float_literal) [''x = 1'', ''y = 2'', ''0x = 3''] =
     Inr [([\<lparr>coefficient = 1, variable = ''x'', operator = ADD\<rparr>], 1),
          ([\<lparr>coefficient = 1, variable = ''y'', operator = ADD\<rparr>], 2),
          ([\<lparr>coefficient = 0, variable = ''x'', operator = ADD\<rparr>], 3)] \<and>
   term_vars [([\<lparr>coefficient = 1, variable = ''x'', operator = ADD\<rparr>], 1 :: rat),
          ([\<lparr>coefficient = 1, variable = ''y'', operator = ADD\<rparr>], 2),
          ([\<lparr>coefficient = 0, variable = ''x'', operator = ADD\<rparr>], 3)] \<noteq> [] \<and>
   reduced_form (augment [[1, 0], [0, 1], [0, 0]] [1, 2, 3]) \<and>
   check_rank [[1, 0], [0, 1], [0, 0]] = Inr 2 \<and>
   check_rank (augment [[1, 0], [0, 1], [0, 0]] [1, 2, 3]) = Inr 3 \<and>
   (\<exists>out. solve_equations_manual float_literal [''x = 1'', ''y = 2'', ''0x = 3''] = Inr out \<and>
          returned out = [])"
proof -
  let ?parsed = "[([\<lparr>coefficient = 1, variable = ''x'', operator = ADD\<rparr>], 1 :: rat),
          ([\<lparr>coefficient = 1, variable = ''y'', operator = ADD\<rparr>], 2),
          ([\<lparr>coefficient = 0, variable = ''x'', operator = ADD\<rparr>], 3)]"
  let ?A = "[[1, 0], [0, 1], [0, 0 :: rat]]"
  have h1: "mapE (parse_question float_literal) [''x = 1'', ''y = 2'', ''0x = 3''] = Inr ?parsed"
    by (rule solved_system_parsed)
  have h2: "term_vars ?parsed \<noteq> []" by (simp add: term_vars_def)
  have B: "map snd ?parsed = [1, 2, 3]" by simp
  from classification_by_reduced_ranks [OF h1 h2]
  obtain A R ra rg out where c:
    "build_matrix (var_order_of ?parsed) ?parsed = Inr A"
    "solve_equations_manual float_literal [''x = 1'', ''y = 2'', ''0x = 3''] = Inr out"
    "(returned out = []) = (ra \<noteq> rg)"
    "reduced_form (augment A (map snd ?parsed)) \<longrightarrow>
       check_rank A = Inr ra \<and> check_rank (augment A (map snd ?parsed)) = Inr rg"
    by blast
  from c(1) solved_system_matrix have A: "A = ?A" by simp
  from c(4) solved_system_reduced solved_system_ranks
  have "ra = 2" "rg = 3" unfolding A B by simp_all
  with c(3) have "returned out = []" by simp
  with c(2) h1 h2 solved_system_reduced solved_system_ranks show ?thesis by blast
qed

subsection \<open>Bounds on the rank\<close>

text \<open>
  C6. On every rectangular matrix \<open>A\<close> check_rank returns a rank that is at most the
  number of rows and at most the number of columns; and for every vector \<open>B\<close> with one
  constant per row, the rank it returns on \<open>A\<close> is at most the rank it returns on
  \<open>[A|B]\<close>, which in turn is at most the number of rows and of columns of \<open>[A|B]\<close>.
  The two runs agree column by column on the columns of \<open>A\<close>: the pivot tests read the
  same entries and the row operations act on every column alike, so after the columns of
  \<open>A\<close> the rank counters are equal, and the last column can only add to the counter.
\<close>

theorem check_rank_bounds:
  assumes "rectangular A" "length B = length A"
  shows "\<exists>ra rg. check_rank A = Inr ra \<and> ra \<le> min (length A) (length (hd A)) \<and>
           check_rank (augment A B) = Inr rg \<and> ra \<le> rg \<and>
           rg \<le> min (length A) (length (hd A) + 1)"
proof -
  have A: "rect (length A) (length (hd A)) A" using assms by (simp add: rectangular_rect)
  from augment_rect [OF A assms(2)]
  have G: "rect (length A) (Suc (length (hd A))) (augment A B)" "map butlast (augment A B) = A"
    by simp_all
  from check_rank_butlast_le [OF G(1)] G(2)
  obtain ra rg where r: "check_rank A = Inr ra" "check_rank (augment A B) = Inr rg" "ra \<le> rg"
    by auto
  from check_rank_props [OF A] r(1) have "ra \<le> min (length A) (length (hd A))" by auto
  moreover from check_rank_props [OF G(1)] r(2)
  have "rg \<le> min (length A) (length (hd A) + 1)" by auto
  ultimately show ?thesis using r by simp
qed

theorem check_rank_bounds_witness:
  "rectangular [[2, 4], [1, 2]] \<and> length [6, 4 :: rat] = length [[2, 4], [1, 2 :: rat]] \<and>
   check_rank [[2, 4], [1, 2]] = Inr 1 \<and> check_rank (augment [[2, 4], [1, 2]] [6, 4]) = Inr 2"
proof -
  have h1: "rectangular [[2, 4], [1, 2]]" by (simp add: rectangular_def)
  have h2: "length [6, 4 :: rat] = length [[2, 4], [1, 2 :: rat]]" by simp
  have e1: "check_rank [[2, 4], [1, 2]] = Inr 1" by code_simp
  have e2: "check_rank (augment [[2, 4], [1, 2]] [6, 4]) = Inr 2" by code_simp
  from check_rank_bounds [OF h1 h2] h1 h2 e1 e2 show ?thesis by simp
qed

subsection \<open>Running the reducer twice\<close>

text \<open>
  C7. The claim is that a second run of gauss_jordan changes nothing. A column that the
  first run skips, because its largest magnitude is below the tolerance, keeps entries
  that are small but not zero; a later step divides its pivot row by a small pivot and
  makes such an entry large, and the second run then finds a pivot where the first found
  none. For the matrix \<open>[[6e-11, 0, 0], [5e-11, 2e-10, 0]]\<close> the first run returns
  \<open>[[6e-11, 0, 0], [1/4, 1, 0]]\<close> and the second swaps the rows and returns
  \<open>[[1, 4, 0], [6e-11, 0, 0]]\<close>.
\<close>

theorem gauss_jordan_second_run_changes:
  "gauss_jordan [[6 / 10 ^ 11, 0, 0], [5 / 10 ^ 11, 2 / 10 ^ 10, 0]] =
     Inr [[6 / 10 ^ 11, 0, 0], [1 / 4, 1, 0]] \<and>
   gauss_jordan [[6 / 10 ^ 11, 0, 0], [1 / 4, 1, 0]] =
     Inr [[1, 4, 0], [6 / 10 ^ 11, 0, 0]]"
  by code_simp

text \<open>
  C7, as the code has it: gauss_jordan leaves unchanged every non-empty rectangular matrix
  that is in reduced form, that is, in which every pivot position \<open>i\<close> below
  \<open>min(rows, cols - 1)\<close> is settled: no row below row \<open>i\<close> has a larger magnitude in
  column \<open>i\<close>, and the entry at \<open>(i, i)\<close> is either below the tolerance or equal to 1 with
  every other entry of column \<open>i\<close> within the tolerance.
\<close>

theorem gauss_jordan_fixes_reduced_form:
  assumes "rectangular m" "m \<noteq> []" "reduced_form m"
  shows "gauss_jordan m = Inr m"
proof -
  let ?rows = "length m" and ?cols = "length (hd m)"
  have r: "rect ?rows ?cols m" using assms(1) by (rule rectangular_rect)
  have hd: "item m 0 = Inr (hd m)" using assms(2) by (cases m) simp_all
  have "foldE (gj_step ?rows ?cols) [0..<min ?rows (?cols - 1)] m = Inr m"
  proof (rule foldE_fixed)
    fix i assume "i \<in> set [0..<min ?rows (?cols - 1)]"
    then have i: "i < ?rows" "i < ?cols" and s: "settled_at m i"
      using assms(3) by (auto simp: reduced_form_def list_all_iff)
    from gj_step_settled [OF r i s] show "gj_step ?rows ?cols i m = Inr m" .
  qed
  with hd show ?thesis by (simp add: gauss_jordan_def)
qed

theorem gauss_jordan_fixes_reduced_form_witness:
  "rectangular [[1, 0, 2], [0, 1, 1]] \<and> [[1, 0, 2], [0, 1, 1 :: rat]] \<noteq> [] \<and>
   reduced_form [[1, 0, 2], [0, 1, 1]] \<and>
   gauss_jordan [[2, 3, 7], [1, - 1, 1]] = Inr [[1, 0, 2], [0, 1, 1]] \<and>
   gauss_jordan [[1, 0, 2], [0, 1, 1]] = Inr [[1, 0, 2], [0, 1, 1]]"
proof -
  have h1: "rectangular [[1, 0, 2], [0, 1, 1]]" by (simp add: rectangular_def)
  have h2: "[[1, 0, 2], [0, 1, 1 :: rat]] \<noteq> []" by simp
  have h3: "reduced_form [[1, 0, 2], [0, 1, 1]]" by code_simp
  have first: "gauss_jordan [[2, 3, 7], [1, - 1, 1]] = Inr [[1, 0, 2], [0, 1, 1]]" by code_simp
  from gauss_jordan_fixes_reduced_form [OF h1 h2 h3] h1 h2 h3 first show ?thesis by simp
qed

subsection \<open>Determinism\<close>

text \<open>
  C8. The solver is a function of the equation list but for one thing: the order in which
  the Python set \<^verbatim>\<open>all_vars\<close> is iterated, which varies between runs of the
  interpreter. The outcome does not depend on it: two runs that parse the same equations
  and meet the set in any two orders \<open>vars1\<close> and \<open>vars2\<close> return the same result, errors
  included, which is the value of the solver on the equation list.
\<close>

theorem solver_deterministic:
  assumes "mapE (parse_question flt) eq = Inr parsed"
    and "set vars1 = set (term_vars parsed)" "distinct vars1"
    and "set vars2 = set (term_vars parsed)" "distinct vars2"
  shows "solve_from vars1 parsed = solve_from vars2 parsed \<and>
         solve_from vars1 parsed = solve_equations_manual flt eq"
proof -
  have "sort vars1 = sort vars2"
    using assms by (intro sort_enumeration) simp_all
  then have a: "solve_from vars1 parsed = solve_from vars2 parsed"
    by (rule solve_from_sort)
  have "sort vars1 = sort (remdups (term_vars parsed))"
    using assms by (intro sort_enumeration) simp_all
  then have "solve_from vars1 parsed = solve_from (remdups (term_vars parsed)) parsed"
    by (rule solve_from_sort)
  then have b: "solve_from vars1 parsed = solve_equations_manual flt eq"
    using assms(1) by (simp add: solve_equations_manual_def solve_parsed_def)
  from a b show ?thesis by simp
qed

theorem solver_deterministic_witness:
  "solve_from [''x'', ''y'']
     [([\<lparr>coefficient = 2, variable = ''x'', operator = ADD\<rparr>,
        \<lparr>coefficient = 3, variable = ''y'', operator = ADD\<rparr>], 7),
      ([\<lparr>coefficient = 1, variable = ''x'', operator = ADD\<rparr>,
        \<lparr>coefficient = 1, variable = ''y'', operator = SUB\<rparr>], 1)] =
   solve_from [''y'', ''x'']
     [([\<lparr>coefficient = 2, variable = ''x'', operator = ADD\<rparr>,
        \<lparr>coefficient = 3, variable = ''y'', operator = ADD\<rparr>], 7),
      ([\<lparr>coefficient = 1, variable = ''x'', operator = ADD\<rparr>,
        \<lparr>coefficient = 1, variable = ''y'', operator = SUB\<rparr>], 1)] \<and>
   solve_equations_manual float_literal [''2x + 3y = 7'', ''x - y = 1''] =
     Inr (UniqueSolution [(''x'', 2), (''y'', 1)])"
proof -
  let ?parsed = "[([\<lparr>coefficient = 2, variable = ''x'', operator = ADD\<rparr>,
        \<lparr>coefficient = 3, variable = ''y'', operator = ADD\<rparr>], 7),
      ([\<lparr>coefficient = 1, variable = ''x'', operator = ADD\<rparr>,
        \<lparr>coefficient = 1, variable = ''y'', operator = SUB\<rparr>], 1 :: rat)]"
  have h1: "mapE (parse_question float_literal) [''2x + 3y = 7'', ''x - y = 1''] = Inr ?parsed"
    by code_simp
  have tv: "term_vars ?parsed = [''x'', ''y'', ''x'', ''y'']"
    by (simp add: term_vars_def)
  have h2: "set [''x'', ''y''] = set (term_vars ?parsed)" unfolding tv by auto
  have h3: "distinct [''x'', ''y'']" by simp
  have h4: "set [''y'', ''x''] = set (term_vars ?parsed)" unfolding tv by auto
  have h5: "distinct [''y'', ''x'']" by simp
  have o: "solve_equations_manual float_literal [''2x + 3y = 7'', ''x - y = 1''] =
     Inr (UniqueSolution [(''x'', 2), (''y'', 1)])"
    by code_simp
  from solver_deterministic [OF h1 h2 h3 h4 h5] o show ?thesis by simp
qed

subsection \<open>The rank calculator and the caller's matrix\<close>

text \<open>
  C9. check_rank never mutates its argument: when the call on the matrix at the address
  \<open>a\<close> of a store \<open>h\<close> returns, every object that was in the store before the call (the
  caller's outer list and each of its rows among them) is as it was; all writes went to
  objects allocated during the call. (By \<open>check_rank_st_refines\<close> the call does return
  on every rectangular matrix held in the store, rows shared or not, with the rank that
  check_rank computes on the matrix as a value.)
\<close>

theorem check_rank_leaves_store:
  assumes "check_rank_st h a = Inr (h', r)"
  shows "take (length h) h' = h"
  using assms
  by (auto simp: check_rank_st_def bindE_eq_Inr Let_def split: if_splits
           intro: copied_temp_private)

theorem check_rank_leaves_store_witness:
  "check_rank_st [Row [0, 4, 1], Row [1, 2, 3], Mat [0, 1]] 2 =
     Inr ([Row [0, 4, 1], Row [1, 2, 3], Mat [0, 1], Row [0, 4, 1], Row [1, 0, 5 / 2], Mat [4, 3]], 2) \<and>
   take (length [Row [0, 4, 1], Row [1, 2, 3], Mat [0, 1]])
     [Row [0, 4, 1], Row [1, 2, 3], Mat [0, 1], Row [0, 4, 1], Row [1, 0, 5 / 2], Mat [4, 3]]
     = [Row [0, 4, 1], Row [1, 2, 3], Mat [0, 1]]"
proof -
  have h: "check_rank_st [Row [0, 4, 1], Row [1, 2, 3], Mat [0, 1]] 2 =
     Inr ([Row [0, 4, 1], Row [1, 2, 3], Mat [0, 1], Row [0, 4, 1], Row [1, 0, 5 / 2], Mat [4, 3]], 2)"
    by code_simp
  from check_rank_leaves_store [OF h] h show ?thesis by simp
qed

subsection \<open>The rank calculator on degenerate matrices\<close>

text \<open>
  C10. check_rank is total on degenerate inputs: on the empty matrix, and on every matrix
  whose first row is empty (whatever the other rows are), it returns 0; it raises nothing
  and reads no entry.
\<close>

theorem check_rank_degenerate:
  "check_rank [] = Inr 0 \<and> check_rank ([] # rest) = Inr 0"
  by (simp add: check_rank_def)

end
